theory Spec2Isabelle
  imports Complex_Main "HOL-Library.Sublist" "HOL-Library.Multiset" "HOL-Library.AList"
begin

section \<open>Python strings\<close>

text \<open>
  A Python \<^verbatim>\<open>str\<close> is a sequence of Unicode code points, so a text is a list of
  natural numbers; \<open>cp\<close> turns an ASCII literal into its code points. The citation
  patterns of the compressor contain code points above 255, which an 8-bit character
  cannot hold.
\<close>

type_synonym pystr = "nat list"

definition cp :: "string \<Rightarrow> pystr" where
  "cp s = map of_char s"

text \<open>
  The Unicode tables behind \<^verbatim>\<open>\d\<close> (decimal digits) and \<^verbatim>\<open>str.lower\<close> belong to the
  Python runtime, not to the repository, and change with the Unicode version: they are a
  parameter of the model. \<open>ascii_db\<close> is their restriction to ASCII, on which every
  version agrees; it is used to run the model on ASCII inputs.
\<close>

record unicode_db =
  isdecimal :: "nat \<Rightarrow> bool"
  lower :: "pystr \<Rightarrow> pystr"

definition ascii_db :: unicode_db where
  "ascii_db = \<lparr> isdecimal = (\<lambda>c. 48 \<le> c \<and> c \<le> 57),
                lower = map (\<lambda>c. if 65 \<le> c \<and> c \<le> 90 then c + 32 else c) \<rparr>"

text \<open>Whitespace as \<^verbatim>\<open>str.isspace\<close>, \<^verbatim>\<open>str.strip\<close>, \<^verbatim>\<open>str.split\<close> and \<^verbatim>\<open>\s\<close> see it.\<close>

definition isspace :: "nat \<Rightarrow> bool" where
  "isspace c \<longleftrightarrow> (9 \<le> c \<and> c \<le> 13) \<or> (28 \<le> c \<and> c \<le> 32) \<or> c = 133 \<or> c = 160
     \<or> c = 5760 \<or> (8192 \<le> c \<and> c \<le> 8202) \<or> c = 8232 \<or> c = 8233 \<or> c = 8239
     \<or> c = 8287 \<or> c = 12288"

definition strip :: "pystr \<Rightarrow> pystr" where
  "strip s = rev (dropWhile isspace (rev (dropWhile isspace s)))"

text \<open>\<^verbatim>\<open>sep.join(parts)\<close>.\<close>

fun join :: "pystr \<Rightarrow> pystr list \<Rightarrow> pystr" where
  "join sep [] = []"
| "join sep [x] = x"
| "join sep (x # y # ys) = x @ sep @ join sep (y # ys)"

text \<open>\<^verbatim>\<open>s.split()\<close> without a separator: the maximal runs of non-whitespace.\<close>

fun split_ws :: "pystr \<Rightarrow> pystr \<Rightarrow> pystr list" where
  "split_ws cur [] = (if cur = [] then [] else [cur])"
| "split_ws cur (c # s) =
     (if isspace c then (if cur = [] then split_ws [] s else cur # split_ws [] s)
      else split_ws (cur @ [c]) s)"

text \<open>\<^verbatim>\<open>str(n)\<close> and \<^verbatim>\<open>f"{n}"\<close> for a non-negative integer: its decimal digits.\<close>

fun str_nat :: "nat \<Rightarrow> pystr" where
  "str_nat n = (if n < 10 then [48 + n] else str_nat (n div 10) @ [48 + n mod 10])"

declare str_nat.simps [simp del]

section \<open>Python floats\<close>

text \<open>
  A Python \<^verbatim>\<open>float\<close> is an IEEE 754 binary64 number; the model holds its value, a real.
  An arithmetic operation yields the exact result rounded to the nearest double, a tie
  going to the double with the even significand: that rounding is \<open>round_double\<close>. The
  doubles around a positive \<open>x\<close> are the multiples of \<open>2 ^ (e - 52)\<close>, where \<open>e\<close> is the
  binary exponent of \<open>x\<close>: the largest integer with \<open>2 ^ e \<le> x\<close>, but at least -1022
  (below that the doubles are subnormal and equally spaced). For \<open>x\<close> from 1 on it is
  read off the integer part of \<open>x\<close>; below 1 it is searched downwards from -1, and the
  search ends at -1022. A result beyond the largest double, where Python yields \<^verbatim>\<open>inf\<close>
  or raises \<^verbatim>\<open>OverflowError\<close>, is not modelled: \<open>round_double\<close> has no largest value.
\<close>

definition round_half_even :: "real \<Rightarrow> int" where
  "round_half_even q =
     (let f = \<lfloor>q\<rfloor>; d = q - of_int f
      in if d < 1 / 2 then f else if 1 / 2 < d then f + 1
         else if even f then f else f + 1)"

fun floor_log2 :: "nat \<Rightarrow> nat" where
  "floor_log2 n = (if n < 2 then 0 else Suc (floor_log2 (n div 2)))"

declare floor_log2.simps [simp del]

function small_exponent :: "nat \<Rightarrow> real \<Rightarrow> int" where
  "small_exponent k x =
     (if 1022 \<le> k \<or> 1 \<le> 2 ^ k * x then - int k else small_exponent (Suc k) x)"
  by pat_completeness auto
termination
  by (relation "measure (\<lambda>(k, x). 1022 - k)") auto

declare small_exponent.simps [simp del]

definition binary_exponent :: "real \<Rightarrow> int" where
  "binary_exponent x =
     (if 1 \<le> x then int (floor_log2 (nat \<lfloor>x\<rfloor>)) else small_exponent 1 x)"

definition pow2 :: "int \<Rightarrow> real" where
  "pow2 i = (if 0 \<le> i then 2 ^ nat i else 1 / 2 ^ nat (- i))"

definition round_double :: "real \<Rightarrow> real" where
  "round_double x =
     (if x = 0 then 0
      else let u = pow2 (binary_exponent \<bar>x\<bar> - 52)
           in sgn x * (of_int (round_half_even (\<bar>x\<bar> / u)) * u))"

text \<open>The rounding of a positive number, for the proofs.\<close>

definition round_pos :: "real \<Rightarrow> real" where
  "round_pos a =
     of_int (round_half_even (a / pow2 (binary_exponent a - 52)))
       * pow2 (binary_exponent a - 52)"

text \<open>
  \<^verbatim>\<open>float(n)\<close> of an integer, the product of two floats, and \<^verbatim>\<open>m / n\<close> of two integers
  (\<open>n\<close> not zero), which Python rounds correctly from the exact quotient. In \<^verbatim>\<open>n * x\<close>
  with an integer \<open>n\<close> and a float \<open>x\<close> the integer is converted first.
\<close>

definition float_of_int :: "int \<Rightarrow> real" where
  "float_of_int n = round_double (of_int n)"

definition float_mul :: "real \<Rightarrow> real \<Rightarrow> real" where
  "float_mul x y = round_double (x * y)"

definition int_truediv :: "int \<Rightarrow> int \<Rightarrow> real" where
  "int_truediv m n = round_double (of_int m / of_int n)"

text \<open>\<^verbatim>\<open>int(x)\<close> of a float: truncation towards zero.\<close>

definition py_int :: "real \<Rightarrow> int" where
  "py_int x = (if 0 \<le> x then \<lfloor>x\<rfloor> else \<lceil>x\<rceil>)"

section \<open>The regular expressions of the repository\<close>

text \<open>
  Every pattern handed to \<^verbatim>\<open>re\<close> in the compressor is a sequence of character classes,
  each with one of the quantifiers none, \<^verbatim>\<open>?\<close>, \<^verbatim>\<open>*\<close>, \<^verbatim>\<open>+\<close>. \<open>match_here\<close> is the
  backtracking matcher of \<^verbatim>\<open>re\<close> on such a pattern at the start of a text: quantifiers are
  greedy and give characters back one at a time; the result is the length of the match.
\<close>

datatype quant = One | Opt | Star | Plus

type_synonym atom = "(nat \<Rightarrow> bool) \<times> quant"
type_synonym regex = "atom list"

fun match_here :: "regex \<Rightarrow> pystr \<Rightarrow> nat option" where
  "match_here [] s = Some 0"
| "match_here ((p, One) # r) [] = None"
| "match_here ((p, One) # r) (c # s) =
     (if p c then map_option Suc (match_here r s) else None)"
| "match_here ((p, Opt) # r) [] = match_here r []"
| "match_here ((p, Opt) # r) (c # s) =
     (if p c then (case match_here r s of Some n \<Rightarrow> Some (Suc n)
                                         | None \<Rightarrow> match_here r (c # s))
      else match_here r (c # s))"
| "match_here ((p, Star) # r) [] = match_here r []"
| "match_here ((p, Star) # r) (c # s) =
     (if p c then (case match_here ((p, Star) # r) s of Some n \<Rightarrow> Some (Suc n)
                                                      | None \<Rightarrow> match_here r (c # s))
      else match_here r (c # s))"
| "match_here ((p, Plus) # r) [] = None"
| "match_here ((p, Plus) # r) (c # s) =
     (if p c then map_option Suc (match_here ((p, Star) # r) s) else None)"

text \<open>\<^verbatim>\<open>re.search(pattern, s)\<close> as a truth value: some position has a match.\<close>

fun re_search :: "regex \<Rightarrow> pystr \<Rightarrow> bool" where
  "re_search r [] = (match_here r [] \<noteq> None)"
| "re_search r (c # s) = (match_here r (c # s) \<noteq> None \<or> re_search r s)"

text \<open>
  \<^verbatim>\<open>re.finditer(pattern, s)\<close>, as the list of the matched strings: the leftmost match,
  then the search goes on behind it. The first argument counts the characters of the
  current match that are still to be passed over. (A pattern that matches the empty string
  yields an empty match and the scan moves on by one character; no pattern of the
  repository does.)
\<close>

fun finditer_from :: "nat \<Rightarrow> regex \<Rightarrow> pystr \<Rightarrow> pystr list" where
  "finditer_from k r [] = (if k = 0 \<and> match_here r [] \<noteq> None then [[]] else [])"
| "finditer_from (Suc k) r (c # s) = finditer_from k r s"
| "finditer_from 0 r (c # s) =
     (case match_here r (c # s) of
        None \<Rightarrow> finditer_from 0 r s
      | Some 0 \<Rightarrow> [] # finditer_from 0 r s
      | Some (Suc n) \<Rightarrow> take (Suc n) (c # s) # finditer_from n r s)"

definition finditer :: "regex \<Rightarrow> pystr \<Rightarrow> pystr list" where
  "finditer r s = finditer_from 0 r s"

text \<open>Character classes.\<close>

definition chr :: "nat \<Rightarrow> nat \<Rightarrow> bool" where
  "chr a c \<longleftrightarrow> c = a"

definition upper_AZ :: "nat \<Rightarrow> bool" where
  "upper_AZ c \<longleftrightarrow> 65 \<le> c \<and> c \<le> 90"

definition lower_az :: "nat \<Rightarrow> bool" where
  "lower_az c \<longleftrightarrow> 97 \<le> c \<and> c \<le> 122"

text \<open>A literal piece of a pattern: one atom for each character.\<close>

definition lit :: "string \<Rightarrow> regex" where
  "lit s = map (\<lambda>c. (chr (of_char c), One)) s"

section \<open>Sentence splitting\<close>

text \<open>
  \<^verbatim>\<open>re.split(r'(?<=[.!?])\s+', text)\<close>: a separator is a maximal run of whitespace that
  directly follows one of \<^verbatim>\<open>.\<close>, \<^verbatim>\<open>!\<close>, \<^verbatim>\<open>?\<close>. The first argument is the piece read so far.
\<close>

function re_split_sentences :: "pystr \<Rightarrow> pystr \<Rightarrow> pystr list" where
  "re_split_sentences cur [] = [cur]"
| "re_split_sentences cur (c # s) =
     (if (c = 46 \<or> c = 33 \<or> c = 63) \<and> s \<noteq> [] \<and> isspace (hd s)
      then (cur @ [c]) # re_split_sentences [] (dropWhile isspace s)
      else re_split_sentences (cur @ [c]) s)"
  by pat_completeness auto
termination
  by (relation "measure (\<lambda>(cur, s). length s)")
     (auto simp: le_imp_less_Suc length_dropWhile_le)

text \<open>\<^verbatim>\<open>_split_sentences\<close> (the same in the chunker and in the fallback compressor).\<close>

definition split_sentences :: "pystr \<Rightarrow> pystr list" where
  "split_sentences text =
     map strip (filter (\<lambda>s. strip s \<noteq> []) (re_split_sentences [] text))"

section \<open>The extractive fallback compressor\<close>

record CompressionResult =
  compressed_text :: pystr
  original_tokens :: int
  compressed_tokens :: int
  compression_ratio :: real
  preserved_citations :: "pystr list"

definition legal_terms :: "pystr list" where
  "legal_terms = map cp [''court'', ''held'', ''holding'', ''plaintiff'', ''defendant'',
     ''judgment'', ''ruling'', ''statute'', ''precedent'', ''affirm'']"

text \<open>\<^verbatim>\<open>\d+\s+[A-Z][a-z]*\.\s*\d*d?\s+\d+\<close>\<close>

definition score_pattern :: "unicode_db \<Rightarrow> regex" where
  "score_pattern U = [(isdecimal U, Plus), (isspace, Plus), (upper_AZ, One), (lower_az, Star),
     (chr 46, One), (isspace, Star), (isdecimal U, Star), (chr 100, Opt), (isspace, Plus),
     (isdecimal U, Plus)]"

text \<open>
  \<^verbatim>\<open>_score_sentence\<close>. The scores are sums of 1.0, 2.0 and 0.5, which floating point adds
  exactly. A query that is \<^verbatim>\<open>None\<close> or empty is falsy and adds nothing.
\<close>

definition score_sentence :: "unicode_db \<Rightarrow> pystr \<Rightarrow> pystr option \<Rightarrow> real" where
  "score_sentence U sentence query =
     (let score1 = foldl (\<lambda>score term.
                      if sublist (lower U term) (lower U sentence) then score + 1 else score)
                    0 legal_terms;
          score2 = (if re_search (score_pattern U) sentence then score1 + 2 else score1)
      in case query of
           None \<Rightarrow> score2
         | Some q \<Rightarrow>
             if q = [] then score2
             else foldl (\<lambda>score term.
                      if sublist term (lower U sentence) then score + 1 / 2 else score)
                    score2 (split_ws [] (lower U q)))"

text \<open>
  The steps of \<^verbatim>\<open>SimpleFallbackCompressor.compress\<close>, each under the name of the local
  variable it computes. \<^verbatim>\<open>list.sort(key, reverse=True)\<close> is stable: it is the stable
  sort by the negated score. The product \<^verbatim>\<open>len(sentences) * self.target_ratio\<close> is a
  float product, rounded before \<^verbatim>\<open>int\<close> truncates it. The quotient reported as
  \<^verbatim>\<open>compression_ratio\<close> decides nothing and is kept exact.
\<close>

definition scored_sentences :: "unicode_db \<Rightarrow> pystr \<Rightarrow> pystr option \<Rightarrow> (pystr \<times> real) list" where
  "scored_sentences U text query =
     map (\<lambda>sent. (sent, score_sentence U sent query)) (split_sentences text)"

definition sorted_sentences :: "unicode_db \<Rightarrow> pystr \<Rightarrow> pystr option \<Rightarrow> (pystr \<times> real) list" where
  "sorted_sentences U text query = sort_key (\<lambda>x. - snd x) (scored_sentences U text query)"

definition target_count :: "real \<Rightarrow> pystr \<Rightarrow> int" where
  "target_count target_ratio text =
     max 1 (py_int (float_mul (float_of_int (int (length (split_sentences text))))
                      target_ratio))"

definition selected :: "unicode_db \<Rightarrow> real \<Rightarrow> pystr \<Rightarrow> pystr option \<Rightarrow> (pystr \<times> real) list" where
  "selected U target_ratio text query =
     take (nat (target_count target_ratio text)) (sorted_sentences U text query)"

definition compressed :: "unicode_db \<Rightarrow> real \<Rightarrow> pystr \<Rightarrow> pystr option \<Rightarrow> pystr list" where
  "compressed U target_ratio text query =
     filter (\<lambda>s. s \<in> set (map fst (selected U target_ratio text query)))
       (split_sentences text)"

definition fallback_compress ::
  "unicode_db \<Rightarrow> real \<Rightarrow> pystr \<Rightarrow> pystr option \<Rightarrow> CompressionResult" where
  "fallback_compress U target_ratio text query =
     (let ctext = join [32] (compressed U target_ratio text query)
      in \<lparr> compressed_text = ctext,
           original_tokens = int (length text) div 4,
           compressed_tokens = int (length ctext) div 4,
           compression_ratio =
             (if text \<noteq> [] then of_nat (length ctext) / of_nat (length text) else 1),
           preserved_citations = [] \<rparr>)"

section \<open>Citation protection\<close>

text \<open>
  \<^verbatim>\<open>s.replace(old, new, 1)\<close> replaces the first occurrence of \<open>old\<close>, and
  \<^verbatim>\<open>s.replace(old, new)\<close> every occurrence, found from left to right without overlap. An
  empty \<open>old\<close> occurs before every character and at the end.
\<close>

fun replace_first :: "pystr \<Rightarrow> pystr \<Rightarrow> pystr \<Rightarrow> pystr" where
  "replace_first old new [] = (if old = [] then new else [])"
| "replace_first old new (c # s) =
     (if prefix old (c # s) then new @ drop (length old) (c # s)
      else c # replace_first old new s)"

function replace_all :: "pystr \<Rightarrow> pystr \<Rightarrow> pystr \<Rightarrow> pystr" where
  "replace_all old new [] = (if old = [] then new else [])"
| "replace_all old new (c # s) =
     (if old = [] then new @ c # replace_all old new s
      else if prefix old (c # s) then new @ replace_all old new (drop (length old) (c # s))
      else c # replace_all old new s)"
  by pat_completeness auto
termination
  by (relation "measure (\<lambda>(old, new, s). length s)") auto

text \<open>The seven \<^verbatim>\<open>CITATION_PATTERNS\<close>, in the order of the source.\<close>

definition CITATION_PATTERNS :: "unicode_db \<Rightarrow> regex list" where
  "CITATION_PATTERNS U =
    [ [(isdecimal U, Plus), (isspace, Plus)] @ lit ''U.S.'' @ [(isspace, Plus), (isdecimal U, Plus)],
      [(isdecimal U, Plus), (isspace, Plus)] @ lit ''S.'' @ [(isspace, Star)] @ lit ''Ct.''
        @ [(isspace, Plus), (isdecimal U, Plus)],
      [(isdecimal U, Plus), (isspace, Plus)] @ lit ''F.'' @ [(isdecimal U, Plus)] @ lit ''d''
        @ [(isspace, Plus), (isdecimal U, Plus)],
      [(isdecimal U, Plus), (isspace, Plus)] @ lit ''F.'' @ [(isspace, Star)] @ lit ''Supp.''
        @ [(isspace, Star), (isdecimal U, Star), (chr 100, Opt), (isspace, Plus),
           (isdecimal U, Plus)],
      [(upper_AZ, One), (lower_az, Plus), (isspace, Plus)] @ lit ''v.''
        @ [(isspace, Plus), (upper_AZ, One), (lower_az, Plus)],
      [(isdecimal U, Plus), (isspace, Plus)] @ lit ''U.S.C.''
        @ [(isspace, Plus), (chr 3618, One), (chr 3591, One), (isspace, Star),
           (isdecimal U, Plus)],
      [(isdecimal U, Plus), (isspace, Plus)] @ lit ''C.F.R.''
        @ [(isspace, Plus), (chr 3618, One), (chr 3591, One), (isspace, Star),
           (isdecimal U, Plus)] ]"

text \<open>\<^verbatim>\<open>f"__CITATION_{i}_{j}__"\<close>\<close>

definition placeholder :: "nat \<Rightarrow> nat \<Rightarrow> pystr" where
  "placeholder i j = cp ''__CITATION_'' @ str_nat i @ [95] @ str_nat j @ [95, 95]"

text \<open>
  \<^verbatim>\<open>_protect_citations\<close>. The dictionary \<^verbatim>\<open>citation_map\<close> is an association list in
  insertion order, as a Python \<^verbatim>\<open>dict\<close> is. The matches of a pattern are those of the text
  as it was when the pattern's turn came (\<^verbatim>\<open>finditer\<close> keeps that string), while each
  replacement acts on the current text.
\<close>

type_synonym citation_map = "(pystr \<times> pystr) list"

fun protect_matches ::
  "nat \<Rightarrow> nat \<Rightarrow> pystr list \<Rightarrow> pystr \<times> citation_map \<Rightarrow> pystr \<times> citation_map" where
  "protect_matches i j [] st = st"
| "protect_matches i j (m # ms) (protected_text, cmap) =
     protect_matches i (Suc j) ms
       (replace_first m (placeholder i j) protected_text,
        AList.update (placeholder i j) m cmap)"

fun protect_patterns ::
  "nat \<Rightarrow> regex list \<Rightarrow> pystr \<times> citation_map \<Rightarrow> pystr \<times> citation_map" where
  "protect_patterns i [] st = st"
| "protect_patterns i (pattern # ps) (protected_text, cmap) =
     protect_patterns (Suc i) ps
       (protect_matches i 0 (finditer pattern protected_text) (protected_text, cmap))"

definition protect_citations :: "unicode_db \<Rightarrow> pystr \<Rightarrow> pystr \<times> citation_map" where
  "protect_citations U text = protect_patterns 0 (CITATION_PATTERNS U) (text, [])"

text \<open>\<^verbatim>\<open>_restore_citations\<close>: the entries are replaced in the order of the dictionary.\<close>

definition restore_citations :: "pystr \<Rightarrow> citation_map \<Rightarrow> pystr" where
  "restore_citations text cmap =
     foldl (\<lambda>restored_text (ph, citation). replace_all ph citation restored_text) text cmap"

text \<open>
  \<^verbatim>\<open>_extract_citations\<close>: \<^verbatim>\<open>list(set(...))\<close> drops duplicates; the order of the result is
  that of Python's set and is not meant here.
\<close>

definition extract_citations :: "unicode_db \<Rightarrow> pystr \<Rightarrow> pystr list" where
  "extract_citations U text = remdups (concat (map (\<lambda>p. finditer p text) (CITATION_PATTERNS U)))"

section \<open>The model-delegating compressor\<close>

datatype py_error = ImportError | ValueError | TypeError | ServiceError

text \<open>
  What lies outside the repository: whether loading the compression model succeeds, and
  the model's \<^verbatim>\<open>compress_prompt\<close>, given the context, the optional question, the rate and
  the force tokens. Its result is the value under \<^verbatim>\<open>"compressed_prompt"\<close>, if the key is
  there. Likewise the generation service: whether its client library can be imported, the
  credential in the environment, and the chat completion, given the model name and the
  user message.
\<close>

record services =
  load_llmlingua :: "py_error option"
  compress_prompt :: "pystr \<Rightarrow> pystr option \<Rightarrow> real \<Rightarrow> pystr list \<Rightarrow> py_error + pystr option"
  import_openai :: "py_error option"
  openai_api_key :: "pystr option"
  chat_completion :: "pystr \<Rightarrow> pystr \<Rightarrow> py_error + pystr"

record LLMLinguaCompressor =
  model_name :: pystr
  target_ratio :: real
  force_tokens :: "pystr list"
  use_gpu :: bool
  initialized :: bool

definition LEGAL_PRESERVE_TERMS :: "pystr list" where
  "LEGAL_PRESERVE_TERMS = map cp [''holding'', ''held'', ''affirmed'', ''reversed'', ''remanded'',
     ''plaintiff'', ''defendant'', ''appellant'', ''appellee'',
     ''judgment'', ''order'', ''motion'', ''petition'', ''writ'',
     ''statute'', ''regulation'', ''constitutional'', ''amendment'',
     ''precedent'', ''stare decisis'', ''ratio decidendi'',
     ''obiter dictum'', ''prima facie'', ''de facto'', ''de jure'']"

definition ensure_initialized :: "services \<Rightarrow> LLMLinguaCompressor \<Rightarrow> py_error + LLMLinguaCompressor" where
  "ensure_initialized E self =
     (if initialized self then Inr self
      else case load_llmlingua E of
             Some e \<Rightarrow> Inl e
           | None \<Rightarrow> Inr (self\<lparr>initialized := True\<rparr>))"

definition estimate_tokens :: "pystr \<Rightarrow> int" where
  "estimate_tokens text = int (length text) div 4"

text \<open>
  \<^verbatim>\<open>LLMLinguaCompressor.compress\<close>; the compressor comes back with the result, since the
  call may initialise it. A query that is \<^verbatim>\<open>None\<close> or empty takes the branch without a
  question.
\<close>

definition compress ::
  "services \<Rightarrow> unicode_db \<Rightarrow> LLMLinguaCompressor \<Rightarrow> pystr \<Rightarrow> pystr option \<Rightarrow> bool
     \<Rightarrow> py_error + CompressionResult \<times> LLMLinguaCompressor" where
  "compress E U self0 text query preserve =
     (case ensure_initialized E self0 of
        Inl e \<Rightarrow> Inl e
      | Inr self \<Rightarrow>
          let preserved = (if preserve then extract_citations U text else []);
              ftokens = force_tokens self @ LEGAL_PRESERVE_TERMS;
              (protected_text, cmap) = protect_citations U text;
              otokens = estimate_tokens text;
              question = (case query of None \<Rightarrow> None
                          | Some q \<Rightarrow> if q = [] then None else Some q)
          in case compress_prompt E protected_text question (target_ratio self) ftokens of
               Inl e \<Rightarrow> Inl e
             | Inr result \<Rightarrow>
                 let ctext = restore_citations
                               (case result of Some t \<Rightarrow> t | None \<Rightarrow> protected_text) cmap;
                     ctokens = estimate_tokens ctext
                 in Inr (\<lparr> compressed_text = ctext,
                           original_tokens = otokens,
                           compressed_tokens = ctokens,
                           compression_ratio =
                             (if otokens > 0 then of_int ctokens / of_int otokens else 1),
                           preserved_citations = preserved \<rparr>, self))"

text \<open>A retrieved chunk: a dictionary with a content and a metadata dictionary.\<close>

record RetrievedMatch =
  rm_content :: pystr
  rm_metadata :: "string \<rightharpoonup> pystr"
  rm_similarity :: real
  rm_id :: pystr

text \<open>
  \<^verbatim>\<open>compress_chunks\<close>. The ratio is a field of the compressor: it is overwritten before
  the call of \<^verbatim>\<open>compress\<close> and written back after it. The required ratio is a float
  quotient, compared as a float with the configured ratio, and \<^verbatim>\<open>0.9\<close> is the double next
  to nine tenths.
\<close>

definition combined_text :: "RetrievedMatch list \<Rightarrow> pystr" where
  "combined_text chunks =
     join (cp ''\<newline>\<newline>---\<newline>\<newline>'')
       (map (\<lambda>c. cp ''[Source: ''
                  @ (case rm_metadata c ''filename'' of None \<Rightarrow> cp ''Unknown'' | Some f \<Rightarrow> f)
                  @ cp '']\<newline>'' @ rm_content c) chunks)"

definition required_ratio :: "int \<Rightarrow> int \<Rightarrow> real" where
  "required_ratio max_output_tokens current_tokens =
     (if current_tokens > 0 then min (int_truediv max_output_tokens current_tokens) 1 else 1)"

text \<open>
  The compressor as it is when \<^verbatim>\<open>compress\<close> is called: the ratio is tightened if the
  required ratio is below the configured one.
\<close>

definition tighten_ratio :: "LLMLinguaCompressor \<Rightarrow> int \<Rightarrow> int \<Rightarrow> LLMLinguaCompressor" where
  "tighten_ratio self max_output_tokens current_tokens =
     (let rratio = required_ratio max_output_tokens current_tokens
      in if rratio < target_ratio self
         then self\<lparr>target_ratio := float_mul rratio (round_double (9 / 10))\<rparr>
         else self)"

text \<open>
  An error comes with the compressor as the call leaves it. When \<^verbatim>\<open>compress\<close> raises, the
  statement that writes the ratio back is not reached (it stands after the call, under no
  \<^verbatim>\<open>finally\<close>), so the compressor keeps the tightened ratio. The compressor is initialised
  by then, so \<^verbatim>\<open>compress\<close> itself changes nothing on it.
\<close>

definition compress_chunks ::
  "services \<Rightarrow> unicode_db \<Rightarrow> LLMLinguaCompressor \<Rightarrow> RetrievedMatch list \<Rightarrow> pystr \<Rightarrow> int
     \<Rightarrow> py_error \<times> LLMLinguaCompressor + pystr \<times> LLMLinguaCompressor" where
  "compress_chunks E U self0 chunks query max_output_tokens =
     (case ensure_initialized E self0 of
        Inl e \<Rightarrow> Inl (e, self0)
      | Inr self \<Rightarrow>
          let current_tokens = estimate_tokens (combined_text chunks);
              original_ratio = target_ratio self;
              self1 = tighten_ratio self max_output_tokens current_tokens
          in case compress E U self1 (combined_text chunks) (Some query) True of
               Inl e \<Rightarrow> Inl (e, self1)
             | Inr (result, self2) \<Rightarrow>
                 Inr (compressed_text result, self2\<lparr>target_ratio := original_ratio\<rparr>))"

section \<open>The chunker\<close>

text \<open>
  Attribute and dictionary values are strings or \<^verbatim>\<open>None\<close>; \<open>fmt\<close> is what an f-string
  prints for one. A section is a dictionary that may lack either key; the metadata of a
  document is an object that may lack an attribute, and a document may lack the metadata.
\<close>

datatype pyval = PyNone | PyStr pystr

fun fmt :: "pyval \<Rightarrow> pystr" where
  "fmt PyNone = cp ''None''"
| "fmt (PyStr s) = s"

record doc_section =
  sec_name :: "pystr option"
  sec_text :: "pystr option"

record document =
  content :: pystr
  sections :: "doc_section list"
  metadata :: "(string \<rightharpoonup> pyval) option"

record DocumentChunk =
  chunk_content :: pystr
  chunk_id :: pystr
  document_id :: pyval
  chunk_section :: pystr
  page_estimate :: int
  chunk_metadata :: "(string \<times> pyval) list"

record LegalChunker =
  chunk_size :: int
  chunk_overlap :: int
  respect_sections :: bool

text \<open>\<^verbatim>\<open>getattr(document.metadata, a, default) if hasattr(document, 'metadata') else default\<close>\<close>

definition doc_attr :: "document \<Rightarrow> string \<Rightarrow> pyval \<Rightarrow> pyval" where
  "doc_attr doc a dflt =
     (case metadata doc of
        None \<Rightarrow> dflt
      | Some m \<Rightarrow> (case m a of None \<Rightarrow> dflt | Some v \<Rightarrow> v))"

definition create_chunk :: "pystr \<Rightarrow> document \<Rightarrow> pystr \<Rightarrow> nat \<Rightarrow> DocumentChunk" where
  "create_chunk txt doc sec index =
     (let doc_id = doc_attr doc ''filename'' (PyStr (cp ''unknown''))
      in \<lparr> chunk_content = txt,
           chunk_id = fmt doc_id @ [95] @ sec @ [95] @ str_nat index,
           document_id = doc_id,
           chunk_section = sec,
           page_estimate = 0,
           chunk_metadata =
             [(''case_name'', doc_attr doc ''case_name'' (PyStr [])),
              (''court'', doc_attr doc ''court'' (PyStr [])),
              (''filename'', doc_id)] \<rparr>)"

text \<open>
  \<^verbatim>\<open>_get_overlap\<close>: the loop over the reversed units, which stops at the first unit that
  does not fit; \<^verbatim>\<open>chunk[-remaining:]\<close> is the last \<open>remaining\<close> characters, or the whole
  unit if it is shorter.
\<close>

fun overlap_loop :: "int \<Rightarrow> pystr list \<Rightarrow> pystr \<Rightarrow> pystr" where
  "overlap_loop ov [] overlap_text = overlap_text"
| "overlap_loop ov (chunk # rest) overlap_text =
     (if int (length overlap_text) + int (length chunk) \<le> ov
      then overlap_loop ov rest (chunk @ [32] @ overlap_text)
      else let remaining = ov - int (length overlap_text)
           in if remaining > 0
              then drop (length chunk - nat remaining) chunk @ [32] @ overlap_text
              else overlap_text)"

definition get_overlap :: "LegalChunker \<Rightarrow> pystr list \<Rightarrow> pystr" where
  "get_overlap self chunks =
     (if chunks = [] \<or> chunk_overlap self \<le> 0 then []
      else strip (overlap_loop (chunk_overlap self) (rev chunks) []))"

text \<open>
  The state of the loops of \<^verbatim>\<open>chunk_document\<close>: the chunks made so far, the running
  \<^verbatim>\<open>chunk_index\<close>, and the buffer \<^verbatim>\<open>current_chunk\<close> with its \<^verbatim>\<open>current_size\<close>.
\<close>

record chunk_state =
  chunks :: "DocumentChunk list"
  chunk_index :: nat
  current_chunk :: "pystr list"
  current_size :: int

text \<open>
  One sentence of a paragraph longer than \<^verbatim>\<open>chunk_size\<close>. After a chunk is closed the
  buffer is never empty, so the new size is \<^verbatim>\<open>len(current_chunk[0]) + len(sentence)\<close>.
\<close>

definition add_sentence ::
  "LegalChunker \<Rightarrow> document \<Rightarrow> pystr \<Rightarrow> chunk_state \<Rightarrow> pystr \<Rightarrow> chunk_state" where
  "add_sentence self doc section_name st sentence =
     (if current_size st + int (length sentence) > chunk_size self \<and> current_chunk st \<noteq> []
      then let chunk_text = join [32] (current_chunk st);
               overlap_text = get_overlap self (current_chunk st);
               new_chunk = (if overlap_text \<noteq> [] then [overlap_text, sentence] else [sentence])
           in \<lparr> chunks = chunks st @ [create_chunk chunk_text doc section_name (chunk_index st)],
                chunk_index = chunk_index st + 1,
                current_chunk = new_chunk,
                current_size = int (length (hd new_chunk)) + int (length sentence) \<rparr>
      else st\<lparr> current_chunk := current_chunk st @ [sentence],
               current_size := current_size st + int (length sentence) \<rparr>)"

text \<open>One paragraph that is not longer than \<^verbatim>\<open>chunk_size\<close>.\<close>

definition add_paragraph ::
  "LegalChunker \<Rightarrow> document \<Rightarrow> pystr \<Rightarrow> chunk_state \<Rightarrow> pystr \<Rightarrow> chunk_state" where
  "add_paragraph self doc section_name st paragraph =
     (if current_size st + int (length paragraph) > chunk_size self \<and> current_chunk st \<noteq> []
      then let chunk_text = join [10, 10] (current_chunk st);
               overlap_text = get_overlap self (current_chunk st)
           in \<lparr> chunks = chunks st @ [create_chunk chunk_text doc section_name (chunk_index st)],
                chunk_index = chunk_index st + 1,
                current_chunk =
                  (if overlap_text \<noteq> [] then [overlap_text, paragraph] else [paragraph]),
                current_size =
                  (if overlap_text \<noteq> []
                   then int (length overlap_text) + int (length paragraph)
                   else int (length paragraph)) \<rparr>
      else st\<lparr> current_chunk := current_chunk st @ [paragraph],
               current_size := current_size st + int (length paragraph) \<rparr>)"

text \<open>The body of the loop over the paragraphs of a section.\<close>

definition process_paragraph ::
  "LegalChunker \<Rightarrow> document \<Rightarrow> pystr \<Rightarrow> chunk_state \<Rightarrow> pystr \<Rightarrow> chunk_state" where
  "process_paragraph self doc section_name st raw =
     (let paragraph = strip raw
      in if paragraph = [] then st
         else if int (length paragraph) > chunk_size self
              then foldl (add_sentence self doc section_name) st (split_sentences paragraph)
              else add_paragraph self doc section_name st paragraph)"

text \<open>\<^verbatim>\<open>text.split("\n\n")\<close>: the pieces between the occurrences of the separator.\<close>

fun split_nn :: "pystr \<Rightarrow> pystr \<Rightarrow> pystr list" where
  "split_nn cur [] = [cur]"
| "split_nn cur [c] = [cur @ [c]]"
| "split_nn cur (c # d # s) =
     (if c = 10 \<and> d = 10 then cur # split_nn [] s else split_nn (cur @ [c]) (d # s))"

text \<open>
  The body of the loop over the sections: the buffer starts empty in each section, the
  chunk list and \<^verbatim>\<open>chunk_index\<close> are carried on from the section before.
\<close>

definition process_section ::
  "LegalChunker \<Rightarrow> document \<Rightarrow> DocumentChunk list \<times> nat \<Rightarrow> doc_section
     \<Rightarrow> DocumentChunk list \<times> nat" where
  "process_section self doc acc sec =
     (let section_name = (case sec_name sec of None \<Rightarrow> cp ''CONTENT'' | Some n \<Rightarrow> n);
          txt = (case sec_text sec of None \<Rightarrow> [] | Some t \<Rightarrow> t)
      in if strip txt = [] then acc
         else let st = foldl (process_paragraph self doc section_name)
                         \<lparr> chunks = fst acc, chunk_index = snd acc,
                           current_chunk = [], current_size = 0 \<rparr>
                         (split_nn [] txt)
              in if current_chunk st \<noteq> []
                 then (chunks st @ [create_chunk (join [10, 10] (current_chunk st)) doc
                                      section_name (chunk_index st)],
                       chunk_index st + 1)
                 else (chunks st, chunk_index st))"

definition chunk_document :: "LegalChunker \<Rightarrow> document \<Rightarrow> DocumentChunk list" where
  "chunk_document self doc =
     (let secs = (if sections doc \<noteq> [] then sections doc
                  else [\<lparr> sec_name = Some (cp ''CONTENT''), sec_text = Some (content doc) \<rparr>])
      in fst (foldl (process_section self doc) ([], 0) secs))"

section \<open>The query engine\<close>

text \<open>
  The two compressors an engine can hold. \<^verbatim>\<open>SimpleFallbackCompressor\<close> has one field,
  its target ratio.
\<close>

datatype compressor = LLMLingua LLMLinguaCompressor | SimpleFallback real

text \<open>
  A call \<^verbatim>\<open>compressor.compress(text=..., query=..., preserve_citations=...)\<close>, the last
  keyword being optional for the caller. \<^verbatim>\<open>LLMLinguaCompressor.compress\<close> declares the
  parameters \<^verbatim>\<open>text\<close>, \<^verbatim>\<open>query\<close> and \<^verbatim>\<open>preserve_citations\<close> (default \<^verbatim>\<open>True\<close>);
  \<^verbatim>\<open>SimpleFallbackCompressor.compress\<close> declares \<^verbatim>\<open>text\<close> and \<^verbatim>\<open>query\<close> only, and Python
  raises \<^verbatim>\<open>TypeError\<close> for a keyword that the method does not declare.
\<close>

fun call_compress ::
  "services \<Rightarrow> unicode_db \<Rightarrow> compressor \<Rightarrow> pystr \<Rightarrow> pystr option \<Rightarrow> bool option
     \<Rightarrow> py_error + CompressionResult \<times> compressor" where
  "call_compress E U (LLMLingua self) txt query preserve =
     (case compress E U self txt query (case preserve of None \<Rightarrow> True | Some b \<Rightarrow> b) of
        Inl e \<Rightarrow> Inl e
      | Inr (result, self') \<Rightarrow> Inr (result, LLMLingua self'))"
| "call_compress E U (SimpleFallback ratio) txt query None =
     Inr (fallback_compress U ratio txt query, SimpleFallback ratio)"
| "call_compress E U (SimpleFallback ratio) txt query (Some b) = Inl TypeError"

text \<open>
  The vector store is outside the repository: an engine holds its \<^verbatim>\<open>search\<close>, given the
  question, \<^verbatim>\<open>top_k\<close> and the optional metadata filter, or no store at all.
\<close>

type_synonym store = "pystr \<Rightarrow> int \<Rightarrow> (string \<rightharpoonup> pystr) option \<Rightarrow> py_error + RetrievedMatch list"

record LegalRAGEngine =
  vector_store :: "store option"
  engine_compressor :: "compressor option"
  openai_model :: pystr
  top_k :: int
  compression_enabled :: bool
  max_context_tokens :: int
  openai_client :: bool

record RAGResponse =
  answer :: pystr
  sources :: "RetrievedMatch list"
  compressed_context :: pystr
  token_stats :: "(string \<times> real) list"
  response_query :: pystr

text \<open>\<^verbatim>\<open>_format_context\<close>; the documents are numbered from 1.\<close>

definition source_info :: "RetrievedMatch \<Rightarrow> pystr list" where
  "source_info chunk =
     concat (map (\<lambda>(key, label).
                case rm_metadata chunk key of
                  None \<Rightarrow> []
                | Some v \<Rightarrow> if v = [] then [] else [cp label @ v])
        [(''case_name'', ''Case: ''), (''court'', ''Court: ''),
         (''section'', ''Section: ''), (''filename'', ''File: '')])"

definition context_part :: "nat \<Rightarrow> RetrievedMatch \<Rightarrow> pystr" where
  "context_part i chunk =
     (let header = cp ''[Document '' @ str_nat i @ cp '']'';
          header' = (if source_info chunk \<noteq> []
                     then header @ cp '' ('' @ join (cp ''; '') (source_info chunk) @ cp '')''
                     else header)
      in header' @ [10] @ rm_content chunk)"

definition format_context :: "RetrievedMatch list \<Rightarrow> pystr" where
  "format_context cs =
     join (cp ''\<newline>\<newline>---\<newline>\<newline>'')
       (map (\<lambda>(i, chunk). context_part i chunk) (zip [1 ..< Suc (length cs)] cs))"

text \<open>
  \<^verbatim>\<open>_get_openai_client\<close> and \<^verbatim>\<open>_generate_response\<close>: an engine without a client imports
  the library and reads the credential, and raises \<^verbatim>\<open>ValueError\<close> if that is missing or
  empty. The system prompt, the temperature and the output limit are constants of the
  request and belong to the service.
\<close>

definition user_message :: "pystr \<Rightarrow> pystr \<Rightarrow> pystr" where
  "user_message question context =
     cp ''Based on the following legal documents and context, please answer this question:''
     @ cp ''\<newline>\<newline>QUESTION: '' @ question @ cp ''\<newline>\<newline>CONTEXT:\<newline>'' @ context
     @ cp ''\<newline>\<newline>Please provide a comprehensive answer based on the context above. ''
     @ cp ''Cite specific sources when possible.''"

definition get_openai_client :: "services \<Rightarrow> LegalRAGEngine \<Rightarrow> py_error + LegalRAGEngine" where
  "get_openai_client E self =
     (if openai_client self then Inr self
      else case import_openai E of
             Some e \<Rightarrow> Inl e
           | None \<Rightarrow>
               if openai_api_key E = None \<or> openai_api_key E = Some [] then Inl ValueError
               else Inr (self\<lparr>openai_client := True\<rparr>))"

definition generate_response ::
  "services \<Rightarrow> LegalRAGEngine \<Rightarrow> pystr \<Rightarrow> pystr \<Rightarrow> py_error + pystr \<times> LegalRAGEngine" where
  "generate_response E self0 question context =
     (case get_openai_client E self0 of
        Inl e \<Rightarrow> Inl e
      | Inr self \<Rightarrow>
          (case chat_completion E (openai_model self) (user_message question context) of
             Inl e \<Rightarrow> Inl e
           | Inr a \<Rightarrow> Inr (a, self)))"

text \<open>
  The \<^verbatim>\<open>token_stats\<close> dictionary of a full answer. The counts are integers; the
  percentage is the exact quotient, of which Python reports the nearest doubles.
\<close>

definition make_token_stats :: "int \<Rightarrow> int \<Rightarrow> (string \<times> real) list" where
  "make_token_stats otokens ctokens =
     [(''original'', of_int otokens),
      (''compressed'', of_int ctokens),
      (''savings'', of_int (otokens - ctokens)),
      (''savings_percent'',
         (if otokens > 0 then of_int (otokens - ctokens) / of_int otokens * 100 else 0))]"

text \<open>
  \<^verbatim>\<open>LegalRAGEngine.query\<close>. The engine comes back with the response: the compressor and
  the client may have been initialised.
\<close>

definition query ::
  "services \<Rightarrow> unicode_db \<Rightarrow> LegalRAGEngine \<Rightarrow> pystr \<Rightarrow> (string \<rightharpoonup> pystr) option \<Rightarrow> bool
     \<Rightarrow> py_error + RAGResponse \<times> LegalRAGEngine" where
  "query E U self question filter_metadata include_sources =
     (case vector_store self of
        None \<Rightarrow> Inl ValueError
      | Some search \<Rightarrow>
         (case search question (top_k self) filter_metadata of
            Inl e \<Rightarrow> Inl e
          | Inr cs \<Rightarrow>
             if cs = []
             then Inr (\<lparr> answer = cp ''No relevant documents found for your query.'',
                         sources = [],
                         compressed_context = [],
                         token_stats = [(''original'', 0), (''compressed'', 0), (''savings'', 0)],
                         response_query = question \<rparr>, self)
             else
               let original_context = format_context cs;
                   otokens = int (length original_context) div 4;
                   compression =
                     (case engine_compressor self of
                        None \<Rightarrow> Inr (original_context, otokens, self)
                      | Some c \<Rightarrow>
                          if compression_enabled self
                          then (case call_compress E U c original_context (Some question)
                                       (Some True) of
                                  Inl e \<Rightarrow> Inl e
                                | Inr (result, c') \<Rightarrow>
                                    Inr (compressed_text result, compressed_tokens result,
                                         self\<lparr>engine_compressor := Some c'\<rparr>))
                          else Inr (original_context, otokens, self))
               in case compression of
                    Inl e \<Rightarrow> Inl e
                  | Inr (context, ctokens, self1) \<Rightarrow>
                      (case generate_response E self1 question context of
                         Inl e \<Rightarrow> Inl e
                       | Inr (a, self2) \<Rightarrow>
                           Inr (\<lparr> answer = a,
                                  sources = (if include_sources then cs else []),
                                  compressed_context = context,
                                  token_stats = make_token_stats otokens ctokens,
                                  response_query = question \<rparr>, self2))))"

section \<open>The chunker of the document processor\<close>

text \<open>
  \<^verbatim>\<open>_chunk_text\<close> of \<^verbatim>\<open>document_processor/chunker.py\<close>, the other chunker of the
  repository: \<^verbatim>\<open>chunk_document\<close> calls it once for each section. The loop is modelled on
  the list of paragraphs that \<^verbatim>\<open>_split_into_paragraphs(text)\<close> yields. The buffer is one
  string; \<^verbatim>\<open>section or 'main'\<close> is the label of the identifiers; \<^verbatim>\<open>chunk_idx\<close> starts at 0
  in each call.
\<close>

record TextChunk =
  tc_content :: pystr
  tc_chunk_id :: pystr
  tc_document_id :: pystr
  tc_section :: "pystr option"

definition section_label :: "pystr option \<Rightarrow> pystr" where
  "section_label sec = (case sec of None \<Rightarrow> cp ''main'' | Some s \<Rightarrow> if s = [] then cp ''main'' else s)"

definition text_chunk :: "pystr \<Rightarrow> pystr \<Rightarrow> pystr option \<Rightarrow> nat \<Rightarrow> TextChunk" where
  "text_chunk current doc_id sec chunk_idx =
     \<lparr> tc_content = strip current,
       tc_chunk_id = doc_id @ [95] @ section_label sec @ [95] @ str_nat chunk_idx,
       tc_document_id = doc_id,
       tc_section = sec \<rparr>"

definition chunk_text_step ::
  "LegalChunker \<Rightarrow> pystr \<Rightarrow> pystr option \<Rightarrow> TextChunk list \<times> pystr \<times> nat \<Rightarrow> pystr
     \<Rightarrow> TextChunk list \<times> pystr \<times> nat" where
  "chunk_text_step self doc_id sec st para =
     (case st of (cs, current, chunk_idx) \<Rightarrow>
        if int (length current) + int (length para) > chunk_size self
        then let (cs', idx') = (if strip current \<noteq> []
                                then (cs @ [text_chunk current doc_id sec chunk_idx], chunk_idx + 1)
                                else (cs, chunk_idx))
             in if chunk_overlap self > 0 \<and> current \<noteq> []
                then (cs', drop (length current - nat (chunk_overlap self)) current
                             @ [10, 10] @ para, idx')
                else (cs', para, idx')
        else (cs, (if current \<noteq> [] then current @ [10, 10] @ para else para), chunk_idx))"

definition chunk_text ::
  "LegalChunker \<Rightarrow> pystr list \<Rightarrow> pystr \<Rightarrow> pystr option \<Rightarrow> TextChunk list" where
  "chunk_text self paragraphs doc_id sec =
     (case foldl (chunk_text_step self doc_id sec) ([], [], 0) paragraphs of
        (cs, current, chunk_idx) \<Rightarrow>
          if strip current \<noteq> [] then cs @ [text_chunk current doc_id sec chunk_idx] else cs)"

section \<open>The buffers behind the chunks\<close>

text \<open>
  The content of a chunk is the buffer \<^verbatim>\<open>current_chunk\<close> joined, at one of the three places
  where \<^verbatim>\<open>chunk_document\<close> joins it. To speak of the units of a chunk, the loops are run
  once more with a record of these buffers beside the state: whenever a step closes a
  chunk, the separator and the buffer it joins are appended to the record. The state
  itself is moved by the functions of the chunker, so the record holds the buffers of the
  run of \<^verbatim>\<open>chunk_document\<close>.
\<close>

type_synonym buffer = "pystr \<times> pystr list"

definition closes :: "LegalChunker \<Rightarrow> chunk_state \<Rightarrow> pystr \<Rightarrow> bool" where
  "closes self st u \<longleftrightarrow>
     current_size st + int (length u) > chunk_size self \<and> current_chunk st \<noteq> []"

definition add_sentence_rec ::
  "LegalChunker \<Rightarrow> document \<Rightarrow> pystr \<Rightarrow> chunk_state \<times> buffer list \<Rightarrow> pystr
     \<Rightarrow> chunk_state \<times> buffer list" where
  "add_sentence_rec self doc section_name sr sentence =
     (add_sentence self doc section_name (fst sr) sentence,
      if closes self (fst sr) sentence then snd sr @ [([32], current_chunk (fst sr))]
      else snd sr)"

definition add_paragraph_rec ::
  "LegalChunker \<Rightarrow> document \<Rightarrow> pystr \<Rightarrow> chunk_state \<times> buffer list \<Rightarrow> pystr
     \<Rightarrow> chunk_state \<times> buffer list" where
  "add_paragraph_rec self doc section_name sr paragraph =
     (add_paragraph self doc section_name (fst sr) paragraph,
      if closes self (fst sr) paragraph then snd sr @ [([10, 10], current_chunk (fst sr))]
      else snd sr)"

definition process_paragraph_rec ::
  "LegalChunker \<Rightarrow> document \<Rightarrow> pystr \<Rightarrow> chunk_state \<times> buffer list \<Rightarrow> pystr
     \<Rightarrow> chunk_state \<times> buffer list" where
  "process_paragraph_rec self doc section_name sr raw =
     (let paragraph = strip raw
      in if paragraph = [] then sr
         else if int (length paragraph) > chunk_size self
              then foldl (add_sentence_rec self doc section_name) sr (split_sentences paragraph)
              else add_paragraph_rec self doc section_name sr paragraph)"

definition process_section_rec ::
  "LegalChunker \<Rightarrow> document \<Rightarrow> (DocumentChunk list \<times> nat) \<times> buffer list \<Rightarrow> doc_section
     \<Rightarrow> (DocumentChunk list \<times> nat) \<times> buffer list" where
  "process_section_rec self doc ar sec =
     (let section_name = (case sec_name sec of None \<Rightarrow> cp ''CONTENT'' | Some n \<Rightarrow> n);
          txt = (case sec_text sec of None \<Rightarrow> [] | Some t \<Rightarrow> t)
      in if strip txt = [] then ar
         else let sr = foldl (process_paragraph_rec self doc section_name)
                         (\<lparr> chunks = fst (fst ar), chunk_index = snd (fst ar),
                            current_chunk = [], current_size = 0 \<rparr>, snd ar)
                         (split_nn [] txt)
              in (process_section self doc (fst ar) sec,
                  if current_chunk (fst sr) \<noteq> []
                  then snd sr @ [([10, 10], current_chunk (fst sr))]
                  else snd sr))"

definition chunk_buffers :: "LegalChunker \<Rightarrow> document \<Rightarrow> buffer list" where
  "chunk_buffers self doc =
     (let secs = (if sections doc \<noteq> [] then sections doc
                  else [\<lparr> sec_name = Some (cp ''CONTENT''), sec_text = Some (content doc) \<rparr>])
      in snd (foldl (process_section_rec self doc) (([], 0), []) secs))"

section \<open>Invariants of the chunker\<close>

text \<open>
  Notions for the proofs about \<^verbatim>\<open>chunk_document\<close>. The units of a buffer are within
  budget if their total length, separators not counted, is at most \<^verbatim>\<open>chunk_size\<close> plus
  the overlap, or if the last unit alone is longer than \<^verbatim>\<open>chunk_size\<close> and what stands
  before it is at most the overlap. The identifiers of a list of chunks are numbered if
  the ordinal of each is its position in the list.
\<close>

definition total_length :: "pystr list \<Rightarrow> int" where
  "total_length us = int (sum_list (map length us))"

definition within_budget :: "LegalChunker \<Rightarrow> pystr list \<Rightarrow> bool" where
  "within_budget self us \<longleftrightarrow>
     total_length us \<le> chunk_size self + max 0 (chunk_overlap self)
     \<or> (us \<noteq> [] \<and> chunk_size self < int (length (last us))
         \<and> total_length (butlast us) \<le> max 0 (chunk_overlap self))"

definition buffer_ok :: "LegalChunker \<Rightarrow> buffer \<Rightarrow> bool" where
  "buffer_ok self b \<longleftrightarrow>
     (fst b = [32] \<or> fst b = [10, 10]) \<and> snd b \<noteq> [] \<and> within_budget self (snd b)"

definition state_ok :: "LegalChunker \<Rightarrow> chunk_state \<Rightarrow> bool" where
  "state_ok self st \<longleftrightarrow>
     (current_chunk st = [] \<longrightarrow> current_size st = 0)
     \<and> total_length (current_chunk st) \<le> current_size st
     \<and> (current_chunk st \<noteq> [] \<longrightarrow> within_budget self (current_chunk st))"

definition record_ok :: "LegalChunker \<Rightarrow> DocumentChunk list \<Rightarrow> buffer list \<Rightarrow> bool" where
  "record_ok self cs bs \<longleftrightarrow>
     map chunk_content cs = map (\<lambda>b. join (fst b) (snd b)) bs \<and> list_all (buffer_ok self) bs"

definition run_ok :: "LegalChunker \<Rightarrow> chunk_state \<times> buffer list \<Rightarrow> bool" where
  "run_ok self sr \<longleftrightarrow> state_ok self (fst sr) \<and> record_ok self (chunks (fst sr)) (snd sr)"

definition numbered_ids :: "pystr \<Rightarrow> nat \<Rightarrow> (pystr \<times> pystr) list \<Rightarrow> bool" where
  "numbered_ids doc_id n ids \<longleftrightarrow>
     map snd ids = map (\<lambda>(k, sec). doc_id @ [95] @ sec @ [95] @ str_nat k)
                       (zip [n ..< n + length ids] (map fst ids))"

definition id_state_ok :: "document \<Rightarrow> chunk_state \<Rightarrow> bool" where
  "id_state_ok doc st \<longleftrightarrow>
     chunk_index st = length (chunks st)
     \<and> numbered_ids (fmt (doc_attr doc ''filename'' (PyStr (cp ''unknown'')))) 0
          (map (\<lambda>c. (chunk_section c, chunk_id c)) (chunks st))"

definition acc_ok :: "document \<Rightarrow> DocumentChunk list \<times> nat \<Rightarrow> bool" where
  "acc_ok doc acc \<longleftrightarrow>
     snd acc = length (fst acc)
     \<and> numbered_ids (fmt (doc_attr doc ''filename'' (PyStr (cp ''unknown'')))) 0
          (map (\<lambda>c. (chunk_section c, chunk_id c)) (fst acc))"

section \<open>The shape of a protected text\<close>

text \<open>
  Notions for the proofs about the citation guard. A protected text is a sequence of
  tokens, each a literal character or a placeholder; \<open>enc\<close> writes the tokens out. An
  entry \<open>(i, j, m)\<close> stands for the dictionary entry that maps the placeholder \<open>i, j\<close> to
  the citation \<open>m\<close>; \<open>subst\<close> puts the citation back at the level of tokens, and
  \<open>restored\<close> does so for a list of entries in order. \<open>guard_inv\<close> is the invariant of
  \<^verbatim>\<open>_protect_citations\<close>: putting the citations back yields the original text.
\<close>

datatype token = Lit nat | Ph nat nat

fun enc1 :: "token \<Rightarrow> pystr" where
  "enc1 (Lit c) = [c]"
| "enc1 (Ph i j) = placeholder i j"

definition enc :: "token list \<Rightarrow> pystr" where
  "enc ts = concat (map enc1 ts)"

fun lit_ok :: "token \<Rightarrow> bool" where
  "lit_ok (Lit c) = (c \<noteq> 95)"
| "lit_ok (Ph i j) = True"

fun subst1 :: "nat \<Rightarrow> nat \<Rightarrow> pystr \<Rightarrow> token \<Rightarrow> token list" where
  "subst1 i j m (Lit c) = [Lit c]"
| "subst1 i j m (Ph a b) = (if a = i \<and> b = j then map Lit m else [Ph a b])"

definition subst :: "nat \<times> nat \<times> pystr \<Rightarrow> token list \<Rightarrow> token list" where
  "subst e ts = (case e of (i, j, m) \<Rightarrow> concat (map (subst1 i j m) ts))"

definition entry :: "nat \<times> nat \<times> pystr \<Rightarrow> pystr \<times> pystr" where
  "entry e = (case e of (i, j, m) \<Rightarrow> (placeholder i j, m))"

definition restored :: "(nat \<times> nat \<times> pystr) list \<Rightarrow> token list \<Rightarrow> token list" where
  "restored es ts = foldl (\<lambda>ts e. subst e ts) ts es"

definition guard_inv :: "pystr \<Rightarrow> token list \<Rightarrow> (nat \<times> nat \<times> pystr) list \<Rightarrow> bool" where
  "guard_inv T0 ts es \<longleftrightarrow>
     list_all lit_ok ts \<and> restored es ts = map Lit T0 \<and> list_all (\<lambda>e. 95 \<notin> set (snd (snd e))) es"

section \<open>Example inputs\<close>

text \<open>Services that are all unavailable, and an engine whose store finds nothing.\<close>

definition no_services :: services where
  "no_services = \<lparr> load_llmlingua = Some ImportError,
                    compress_prompt = (\<lambda>c q r f. Inl ServiceError),
                    import_openai = Some ImportError,
                    openai_api_key = None,
                    chat_completion = (\<lambda>m u. Inl ServiceError) \<rparr>"

definition empty_store_engine :: LegalRAGEngine where
  "empty_store_engine = \<lparr> vector_store = Some (\<lambda>q k f. Inr []),
       engine_compressor = Some (SimpleFallback (1 / 2)),
       openai_model = cp ''gpt-4-turbo-preview'',
       top_k = 10, compression_enabled = True, max_context_tokens = 8000,
       openai_client = False \<rparr>"

text \<open>
  Services that work: the compression model answers with a fixed text of 120 characters,
  the generation service with a fixed answer.
\<close>

definition stub_services :: services where
  "stub_services = \<lparr> load_llmlingua = None,
                      compress_prompt = (\<lambda>c q r f. Inr (Some (replicate 120 120))),
                      import_openai = None,
                      openai_api_key = Some (cp ''key''),
                      chat_completion = (\<lambda>m u. Inr (cp ''answer'')) \<rparr>"

text \<open>Services whose compression model raises.\<close>

definition failing_model :: services where
  "failing_model = \<lparr> load_llmlingua = None,
                      compress_prompt = (\<lambda>c q r f. Inl ServiceError),
                      import_openai = None,
                      openai_api_key = Some (cp ''key''),
                      chat_completion = (\<lambda>m u. Inr (cp ''answer'')) \<rparr>"



text \<open>One retrieved chunk whose formatted context has 400 characters.\<close>

definition one_match :: RetrievedMatch where
  "one_match = \<lparr> rm_content = replicate 387 97, rm_metadata = Map.empty,
                  rm_similarity = 1, rm_id = cp ''id0'' \<rparr>"

definition default_compressor :: LLMLinguaCompressor where
  "default_compressor = \<lparr> model_name = cp ''llmlingua-2'', target_ratio = 1 / 2,
                           force_tokens = [], use_gpu = False, initialized = False \<rparr>"

definition llmlingua_engine :: LegalRAGEngine where
  "llmlingua_engine = \<lparr> vector_store = Some (\<lambda>q k f. Inr [one_match]),
       engine_compressor = Some (LLMLingua default_compressor),
       openai_model = cp ''gpt-4-turbo-preview'',
       top_k = 10, compression_enabled = True, max_context_tokens = 8000,
       openai_client = False \<rparr>"

definition fallback_engine :: LegalRAGEngine where
  "fallback_engine = \<lparr> vector_store = Some (\<lambda>q k f. Inr [one_match]),
       engine_compressor = Some (SimpleFallback (1 / 2)),
       openai_model = cp ''gpt-4-turbo-preview'',
       top_k = 10, compression_enabled = True, max_context_tokens = 8000,
       openai_client = False \<rparr>"

text \<open>Documents and chunkers.\<close>

definition two_sections :: document where
  "two_sections = \<lparr> content = cp ''x y'',
       sections = [\<lparr> sec_name = Some (cp ''A''), sec_text = Some (cp ''x'') \<rparr>,
                   \<lparr> sec_name = Some (cp ''B''), sec_text = Some (cp ''y'') \<rparr>],
       metadata = Some [''filename'' \<mapsto> PyStr (cp ''f'')] \<rparr>"

definition default_chunker :: LegalChunker where
  "default_chunker = \<lparr> chunk_size = 1000, chunk_overlap = 200, respect_sections = True \<rparr>"

definition small_chunker :: LegalChunker where
  "small_chunker = \<lparr> chunk_size = 10, chunk_overlap = 0, respect_sections = True \<rparr>"

definition two_paragraphs :: document where
  "two_paragraphs = \<lparr> content = cp ''Aaaa.'' @ [10, 10] @ cp ''Bbbb.'', sections = [],
                       metadata = None \<rparr>"

section \<open>Facts about floats\<close>

text \<open>
  The binary exponent brackets its argument between two powers of two, and rounding to
  the nearest double is monotone: within one exponent the doubles are equally spaced, and
  the powers of two between the exponents are doubles themselves.
\<close>

lemma pow2_powr: "pow2 i = 2 powr (of_int i)"
proof (cases "0 \<le> i")
  case True
  then obtain n where i: "i = int n" by (metis nonneg_int_cases)
  show ?thesis unfolding i by (simp add: pow2_def powr_realpow)
next
  case False
  then obtain n where i: "i = - int n" and n: "0 < n" by (metis linorder_not_le neg_int_cases)
  have "(2::real) powr (- real n) = 1 / 2 ^ n"
    by (simp add: powr_minus powr_realpow divide_inverse)
  with n show ?thesis unfolding i by (simp add: pow2_def)
qed

lemma pow2_pos: "0 < pow2 i"
  by (simp add: pow2_powr)

lemma pow2_add: "pow2 (i + j) = pow2 i * pow2 j"
  by (simp add: pow2_powr powr_add)

lemma pow2_mono: "i \<le> j \<Longrightarrow> pow2 i \<le> pow2 j"
  by (simp add: pow2_powr)

lemma pow2_nat: "pow2 (int n) = 2 ^ n"
  by (simp add: pow2_def)

lemma floor_log2_bounds: "0 < n \<Longrightarrow> 2 ^ floor_log2 n \<le> n \<and> n < 2 ^ Suc (floor_log2 n)"
proof (induction n rule: floor_log2.induct)
  case (1 n)
  show ?case
  proof (cases "n < 2")
    case True
    with 1(2) have "n = 1" by simp
    then show ?thesis by (simp add: floor_log2.simps)
  next
    case False
    then have "0 < n div 2" by simp
    with 1(1) False have ih: "2 ^ floor_log2 (n div 2) \<le> n div 2 \<and> n div 2 < 2 ^ Suc (floor_log2 (n div 2))"
      by simp
    from False have e: "floor_log2 n = Suc (floor_log2 (n div 2))" by (subst floor_log2.simps) simp
    from ih show ?thesis unfolding e by (simp; linarith)
  qed
qed

lemma small_exponent_range: "k \<le> 1022 \<Longrightarrow> - 1022 \<le> small_exponent k x \<and> small_exponent k x \<le> - int k"
proof (induction k x rule: small_exponent.induct)
  case (1 k x)
  show ?case
  proof (cases "1022 \<le> k \<or> 1 \<le> 2 ^ k * x")
    case True
    then have "small_exponent k x = - int k" by (subst small_exponent.simps) simp
    with 1(2) show ?thesis by simp
  next
    case False
    then have e: "small_exponent k x = small_exponent (Suc k) x" by (subst small_exponent.simps) simp
    from False 1 have "- 1022 \<le> small_exponent (Suc k) x \<and> small_exponent (Suc k) x \<le> - int (Suc k)" by simp
    then show ?thesis unfolding e by simp
  qed
qed

lemma small_exponent_upper:
  "0 < k \<Longrightarrow> 2 ^ (k - 1) * x < 1 \<Longrightarrow> x < pow2 (small_exponent k x + 1)"
proof (induction k x rule: small_exponent.induct)
  case (1 k x)
  from 1(2) obtain j where k: "k = Suc j" by (cases k) auto
  show ?case
  proof (cases "1022 \<le> k \<or> 1 \<le> 2 ^ k * x")
    case True
    then have e: "small_exponent k x = - int k" by (subst small_exponent.simps) simp
    have "pow2 (- int k + 1) = 1 / 2 ^ j"
      using k by (simp add: pow2_def nat_add_distrib)
    moreover from 1(3) k have "x < 1 / 2 ^ j"
      by (simp add: field_simps)
    ultimately show ?thesis unfolding e by simp
  next
    case False
    then have e: "small_exponent k x = small_exponent (Suc k) x" by (subst small_exponent.simps) simp
    from False have "2 ^ (Suc k - 1) * x < 1" by simp
    with 1(1) False show ?thesis unfolding e by simp
  qed
qed

lemma small_exponent_lower:
  "- 1022 < small_exponent k x \<Longrightarrow> pow2 (small_exponent k x) \<le> x"
proof (induction k x rule: small_exponent.induct)
  case (1 k x)
  show ?case
  proof (cases "1022 \<le> k \<or> 1 \<le> 2 ^ k * x")
    case True
    then have e: "small_exponent k x = - int k" by (subst small_exponent.simps) simp
    with 1(2) have "k < 1022" by simp
    with True have "1 \<le> 2 ^ k * x" by simp
    then have "1 / 2 ^ k \<le> x" by (simp add: field_simps)
    moreover have "pow2 (- int k) = 1 / 2 ^ k" by (cases k) (simp_all add: pow2_def nat_add_distrib)
    ultimately show ?thesis unfolding e by simp
  next
    case False
    then have e: "small_exponent k x = small_exponent (Suc k) x" by (subst small_exponent.simps) simp
    with 1 False show ?thesis by simp
  qed
qed

lemma binary_exponent_range: "- 1022 \<le> binary_exponent x"
proof (cases "1 \<le> x")
  case True
  then show ?thesis by (simp add: binary_exponent_def)
next
  case False
  then show ?thesis using small_exponent_range [of 1 x] by (simp add: binary_exponent_def)
qed

lemma binary_exponent_upper:
  assumes "0 < x"
  shows "x < pow2 (binary_exponent x + 1)"
proof (cases "1 \<le> x")
  case True
  define n where "n = nat \<lfloor>x\<rfloor>"
  from True have n: "0 < n" by (simp add: n_def)
  have "x < of_int \<lfloor>x\<rfloor> + 1" by linarith
  also have "of_int \<lfloor>x\<rfloor> = real n" using True by (simp add: n_def)
  finally have "x < real (n + 1)" by simp
  also have "n + 1 \<le> 2 ^ Suc (floor_log2 n)" using floor_log2_bounds [OF n] by simp
  then have "real (n + 1) \<le> real (2 ^ Suc (floor_log2 n))" by (rule of_nat_mono)
  finally have "x < 2 ^ Suc (floor_log2 n)" by simp
  moreover have "pow2 (binary_exponent x + 1) = 2 ^ Suc (floor_log2 n)"
    using True pow2_nat [of "Suc (floor_log2 n)"] by (simp add: binary_exponent_def n_def add.commute)
  ultimately show ?thesis by simp
next
  case False
  then have "2 ^ (1 - 1) * x < (1::real)" by simp
  from small_exponent_upper [OF _ this] False show ?thesis by (simp add: binary_exponent_def)
qed

lemma binary_exponent_lower:
  assumes "0 < x" "- 1022 < binary_exponent x"
  shows "pow2 (binary_exponent x) \<le> x"
proof (cases "1 \<le> x")
  case True
  define n where "n = nat \<lfloor>x\<rfloor>"
  from True have n: "0 < n" by (simp add: n_def)
  have "real (2 ^ floor_log2 n) \<le> real n" using floor_log2_bounds [OF n] by (intro of_nat_mono) simp
  also have "real n = of_int \<lfloor>x\<rfloor>" using True by (simp add: n_def)
  also have "\<dots> \<le> x" by simp
  finally have "2 ^ floor_log2 n \<le> x" by simp
  moreover have "pow2 (binary_exponent x) = 2 ^ floor_log2 n"
    using True pow2_nat [of "floor_log2 n"] by (simp add: binary_exponent_def n_def)
  ultimately show ?thesis by simp
next
  case False
  with assms(2) small_exponent_lower [of 1 x] show ?thesis by (simp add: binary_exponent_def)
qed


lemma round_half_even_bounds: "\<lfloor>q\<rfloor> \<le> round_half_even q \<and> round_half_even q \<le> \<lceil>q\<rceil>"
proof -
  have "q - of_int \<lfloor>q\<rfloor> < 1 / 2 \<or> \<lfloor>q\<rfloor> < \<lceil>q\<rceil>"
    by (smt (verit) ceiling_altdef of_int_floor_cancel field_sum_of_halves)
  then have "q - of_int \<lfloor>q\<rfloor> < 1 / 2 \<or> \<lfloor>q\<rfloor> + 1 \<le> \<lceil>q\<rceil>" by linarith
  then show ?thesis by (auto simp add: round_half_even_def Let_def)
qed

lemma round_half_even_ge_int: "of_int n \<le> q \<Longrightarrow> n \<le> round_half_even q"
  using round_half_even_bounds [of q] by (meson le_floor_iff order_trans)

lemma round_half_even_le_int: "q \<le> of_int n \<Longrightarrow> round_half_even q \<le> n"
  using round_half_even_bounds [of q] by (meson ceiling_le_iff order_trans)

lemma round_half_even_mono:
  assumes "p \<le> q"
  shows "round_half_even p \<le> round_half_even q"
proof (cases "\<lfloor>p\<rfloor> = \<lfloor>q\<rfloor>")
  case True
  with assms have "p - of_int \<lfloor>p\<rfloor> \<le> q - of_int \<lfloor>q\<rfloor>" by simp
  with True show ?thesis by (auto simp add: round_half_even_def Let_def)
next
  case False
  with assms have "\<lfloor>p\<rfloor> + 1 \<le> \<lfloor>q\<rfloor>" by (smt (verit) floor_mono)
  moreover have "round_half_even p \<le> \<lfloor>p\<rfloor> + 1" by (simp add: round_half_even_def Let_def)
  moreover have "\<lfloor>q\<rfloor> \<le> round_half_even q" using round_half_even_bounds by simp
  ultimately show ?thesis by linarith
qed


lemma round_double_pos: "round_double x = (if x = 0 then 0 else sgn x * round_pos \<bar>x\<bar>)"
  by (simp add: round_double_def round_pos_def Let_def)

lemma round_pos_upper:
  assumes "0 < a"
  shows "round_pos a \<le> pow2 (binary_exponent a + 1)"
proof -
  let ?u = "pow2 (binary_exponent a - 52)"
  have u: "0 < ?u" by (rule pow2_pos)
  have p: "pow2 (binary_exponent a + 1) = of_int (2 ^ 53) * ?u"
    using pow2_add [of 53 "binary_exponent a - 52"] pow2_nat [of 53] by (simp add: add.commute)
  from binary_exponent_upper [OF assms] have "a / ?u \<le> of_int (2 ^ 53)"
    unfolding p using u by (simp add: field_simps)
  then have "round_half_even (a / ?u) \<le> 2 ^ 53" by (rule round_half_even_le_int)
  then have "(of_int (round_half_even (a / ?u)) :: real) \<le> of_int (2 ^ 53)" by (rule of_int_le_iff [THEN iffD2])
  then have "of_int (round_half_even (a / ?u)) * ?u \<le> of_int (2 ^ 53) * ?u"
    using u by (simp only: mult_le_cancel_right_pos)
  then show ?thesis unfolding p round_pos_def .
qed

lemma round_pos_lower:
  assumes "0 < a" "- 1022 < binary_exponent a"
  shows "pow2 (binary_exponent a) \<le> round_pos a"
proof -
  let ?u = "pow2 (binary_exponent a - 52)"
  have u: "0 < ?u" by (rule pow2_pos)
  have p: "pow2 (binary_exponent a) = of_int (2 ^ 52) * ?u"
    using pow2_add [of 52 "binary_exponent a - 52"] pow2_nat [of 52] by simp
  from binary_exponent_lower [OF assms] have "of_int (2 ^ 52) \<le> a / ?u"
    unfolding p using u by (simp add: field_simps)
  then have "2 ^ 52 \<le> round_half_even (a / ?u)" by (rule round_half_even_ge_int)
  then have "(of_int (2 ^ 52) :: real) \<le> of_int (round_half_even (a / ?u))" by (rule of_int_le_iff [THEN iffD2])
  then have "of_int (2 ^ 52) * ?u \<le> of_int (round_half_even (a / ?u)) * ?u"
    using u by (simp only: mult_le_cancel_right_pos)
  then show ?thesis unfolding p round_pos_def .
qed

lemma round_pos_nonneg: "0 \<le> a \<Longrightarrow> 0 \<le> round_pos a"
proof -
  assume a: "0 \<le> a"
  have "0 \<le> a / pow2 (binary_exponent a - 52)" using a pow2_pos [of "binary_exponent a - 52"] by simp
  then have "0 \<le> round_half_even (a / pow2 (binary_exponent a - 52))" using round_half_even_ge_int [of 0] by simp
  then show ?thesis using pow2_pos [of "binary_exponent a - 52"] by (simp add: round_pos_def)
qed

lemma round_pos_mono:
  assumes "0 < a" "a \<le> b"
  shows "round_pos a \<le> round_pos b"
proof -
  from assms have b: "0 < b" by simp
  have le: "binary_exponent a \<le> binary_exponent b"
  proof (rule ccontr)
    assume "\<not> binary_exponent a \<le> binary_exponent b"
    then have lt: "binary_exponent b + 1 \<le> binary_exponent a" by simp
    with binary_exponent_range [of b] have "- 1022 < binary_exponent a" by linarith
    from binary_exponent_lower [OF assms(1) this] have "pow2 (binary_exponent a) \<le> a" .
    moreover have "b < pow2 (binary_exponent b + 1)" by (rule binary_exponent_upper [OF b])
    moreover have "pow2 (binary_exponent b + 1) \<le> pow2 (binary_exponent a)" using lt by (rule pow2_mono)
    ultimately show False using assms(2) by linarith
  qed
  show ?thesis
  proof (cases "binary_exponent a = binary_exponent b")
    case True
    let ?u = "pow2 (binary_exponent b - 52)"
    have u: "0 < ?u" by (rule pow2_pos)
    from assms(2) u have "a / ?u \<le> b / ?u" by (simp add: divide_right_mono)
    then have "round_half_even (a / ?u) \<le> round_half_even (b / ?u)" by (rule round_half_even_mono)
    then have "(of_int (round_half_even (a / ?u)) :: real) \<le> of_int (round_half_even (b / ?u))" by simp
    then have "of_int (round_half_even (a / ?u)) * ?u \<le> of_int (round_half_even (b / ?u)) * ?u"
      using u by (simp only: mult_le_cancel_right_pos)
    then show ?thesis by (simp add: round_pos_def True)
  next
    case False
    with le have lt: "binary_exponent a + 1 \<le> binary_exponent b" by simp
    with binary_exponent_range [of a] have "- 1022 < binary_exponent b" by linarith
    from round_pos_lower [OF b this] have "pow2 (binary_exponent b) \<le> round_pos b" .
    moreover have "round_pos a \<le> pow2 (binary_exponent a + 1)" by (rule round_pos_upper [OF assms(1)])
    moreover have "pow2 (binary_exponent a + 1) \<le> pow2 (binary_exponent b)" using lt by (rule pow2_mono)
    ultimately show ?thesis by linarith
  qed
qed

lemma round_double_mono:
  assumes "x \<le> y"
  shows "round_double x \<le> round_double y"
proof -
  consider "0 < x" | "y < 0" | "x \<le> 0" "0 \<le> y" by linarith
  then show ?thesis
  proof cases
    case 1
    with assms have "0 < y" by simp
    with 1 round_pos_mono [of x y] assms show ?thesis by (simp add: round_double_pos)
  next
    case 2
    with assms have "x < 0" by simp
    with 2 round_pos_mono [of "- y" "- x"] assms show ?thesis by (simp add: round_double_pos)
  next
    case 3
    have "round_double x \<le> 0"
      using 3(1) round_pos_nonneg [of "\<bar>x\<bar>"] by (simp add: round_double_pos sgn_if)
    moreover have "0 \<le> round_double y"
      using 3(2) round_pos_nonneg [of "\<bar>y\<bar>"] by (simp add: round_double_pos sgn_if)
    ultimately show ?thesis by simp
  qed
qed

lemma round_double_nonneg: "0 \<le> x \<Longrightarrow> 0 \<le> round_double x"
  using round_pos_nonneg [of "\<bar>x\<bar>"] by (simp add: round_double_pos sgn_if)

lemmas float_eval =
  round_double_def binary_exponent_def pow2_def round_half_even_def Let_def
  floor_log2.simps small_exponent.simps float_mul_def float_of_int_def int_truediv_def

text \<open>
  Rounding shows in the integer part of a product: five times the float \<^verbatim>\<open>0.6\<close> rounds up
  to 3, where the exact product is below 3, and a hundred times the float \<^verbatim>\<open>0.29\<close> stays
  below 29.
\<close>

lemma float_product_examples:
  "py_int (float_mul (float_of_int 5) (round_double (6 / 10))) = 3
   \<and> py_int (5 * round_double (6 / 10)) = 2
   \<and> py_int (float_mul (float_of_int 100) (round_double (29 / 100))) = 28
   \<and> py_int (float_mul (float_of_int 3) (1 / 2)) = 1"
  by (simp add: py_int_def float_eval)

lemma float_mul_mono: "0 \<le> x \<Longrightarrow> r1 \<le> r2 \<Longrightarrow> float_mul x r1 \<le> float_mul x r2"
  unfolding float_mul_def by (intro round_double_mono mult_left_mono)

lemma float_of_int_nonneg: "0 \<le> n \<Longrightarrow> 0 \<le> float_of_int n"
  unfolding float_of_int_def by (rule round_double_nonneg) simp

section \<open>Facts about the extractive fallback compressor\<close>

lemma split_sentences_nonempty: "s \<in> set (split_sentences text) \<Longrightarrow> s \<noteq> []"
  by (auto simp: split_sentences_def)

lemma join_nonempty: "xs \<noteq> [] \<Longrightarrow> \<forall>x\<in>set xs. x \<noteq> [] \<Longrightarrow> join sep xs \<noteq> []"
  by (induction sep xs rule: join.induct) auto

lemma length_filter_mono:
  "(\<And>x. x \<in> set xs \<Longrightarrow> P x \<Longrightarrow> Q x) \<Longrightarrow> length (filter P xs) \<le> length (filter Q xs)"
  by (induction xs) auto

lemma target_count_pos: "1 \<le> target_count r text"
  by (simp add: target_count_def)

lemma py_int_mono: "x \<le> y \<Longrightarrow> py_int x \<le> py_int y"
proof -
  assume le: "x \<le> y"
  consider "0 \<le> x" | "x < 0" "0 \<le> y" | "x < 0" "y < 0" by linarith
  then show ?thesis
  proof cases
    case 1
    with le show ?thesis by (simp add: py_int_def floor_mono)
  next
    case 2
    then have "\<lceil>x\<rceil> \<le> 0" "0 \<le> \<lfloor>y\<rfloor>" by (simp_all add: ceiling_le_zero)
    then have "\<lceil>x\<rceil> \<le> \<lfloor>y\<rfloor>" by (rule order_trans)
    with 2 show ?thesis by (simp add: py_int_def)
  next
    case 3
    with le show ?thesis by (simp add: py_int_def ceiling_mono)
  qed
qed

lemma target_count_mono: "r1 \<le> r2 \<Longrightarrow> target_count r1 text \<le> target_count r2 text"
  unfolding target_count_def
  by (intro max.mono order_refl py_int_mono float_mul_mono float_of_int_nonneg) simp_all

lemma length_sorted_sentences:
  "length (sorted_sentences U text q) = length (split_sentences text)"
  by (simp add: sorted_sentences_def scored_sentences_def)

lemma set_sorted_sentences:
  "fst ` set (sorted_sentences U text q) = set (split_sentences text)"
  by (auto simp: sorted_sentences_def scored_sentences_def image_iff)

lemma selected_nonempty:
  "split_sentences text \<noteq> [] \<Longrightarrow> selected U r text q \<noteq> []"
  using target_count_pos [of r "text"] length_sorted_sentences [of U "text" q]
  by (auto simp: selected_def)

lemma selected_subset:
  "fst ` set (selected U r text q) \<subseteq> set (split_sentences text)"
  using set_sorted_sentences [of U "text" q]
  by (auto simp: selected_def dest!: in_set_takeD)

lemma compressed_nonempty:
  assumes "split_sentences text \<noteq> []"
  shows "compressed U r text q \<noteq> []"
proof -
  obtain x where x: "x \<in> set (selected U r text q)"
    using selected_nonempty [OF assms, of U r q] by (cases "selected U r text q") auto
  then have "fst x \<in> set (split_sentences text)"
    using selected_subset [of U r "text" q] by auto
  moreover have "fst x \<in> set (map fst (selected U r text q))"
    using x by auto
  ultimately have "fst x \<in> set (compressed U r text q)"
    by (simp add: compressed_def)
  then show ?thesis by auto
qed

subsection \<open>At least one sentence is kept\<close>

text \<open>
  Claim C10. Whenever the sentence split of the text yields at least one sentence,
  \<^verbatim>\<open>SimpleFallbackCompressor.compress\<close> keeps at least one sentence, whatever the target
  ratio is (zero and negative ratios included), and the compressed text is not empty.
\<close>

theorem fallback_selects_at_least_one:
  assumes "split_sentences text \<noteq> []"
  shows "compressed U ratio text q \<noteq> []
       \<and> compressed_text (fallback_compress U ratio text q) \<noteq> []"
proof -
  have ne: "compressed U ratio text q \<noteq> []"
    by (rule compressed_nonempty [OF assms])
  have "\<forall>s\<in>set (compressed U ratio text q). s \<noteq> []"
    by (auto simp: compressed_def dest: split_sentences_nonempty)
  with ne have "join [32] (compressed U ratio text q) \<noteq> []"
    by (rule join_nonempty)
  with ne show ?thesis by (simp add: fallback_compress_def Let_def)
qed

theorem fallback_selects_at_least_one_witness:
  "split_sentences (cp ''A. B. C.'') \<noteq> []
   \<and> compressed ascii_db 0 (cp ''A. B. C.'') None \<noteq> []
   \<and> compressed_text (fallback_compress ascii_db 0 (cp ''A. B. C.'') None) \<noteq> []"
proof -
  have h: "split_sentences (cp ''A. B. C.'') \<noteq> []"
    by (simp add: split_sentences_def cp_def isspace_def strip_def)
  show ?thesis
    using h fallback_selects_at_least_one [OF h, of ascii_db 0 None] by simp
qed

subsection \<open>A smaller ratio never keeps more sentences\<close>

text \<open>
  Claim C9. For every text and query and every two ratios \<open>r1 \<le> r2\<close>, the fallback
  compressor emits with \<open>r1\<close> at most as many sentences as with \<open>r2\<close>.
\<close>

theorem fallback_ratio_monotone:
  assumes "r1 \<le> r2"
  shows "length (compressed U r1 text q) \<le> length (compressed U r2 text q)"
proof -
  have "nat (target_count r1 text) \<le> nat (target_count r2 text)"
    using target_count_mono [OF assms, of "text"] by simp
  then have "set (selected U r1 text q) \<subseteq> set (selected U r2 text q)"
    unfolding selected_def by (rule set_take_subset_set_take)
  then have "\<And>s. s \<in> set (map fst (selected U r1 text q))
               \<Longrightarrow> s \<in> set (map fst (selected U r2 text q))"
    by auto
  then show ?thesis
    unfolding compressed_def by (intro length_filter_mono) simp
qed

theorem fallback_ratio_monotone_witness:
  "(1 / 2 :: real) \<le> 1
   \<and> length (compressed ascii_db (1 / 2) (cp ''A. B. C.'') None)
       \<le> length (compressed ascii_db 1 (cp ''A. B. C.'') None)"
proof -
  have h: "(1 / 2 :: real) \<le> 1" by simp
  show ?thesis
    using h fallback_ratio_monotone [OF h, of ascii_db "cp ''A. B. C.''" None] by simp
qed

subsection \<open>Which sentences are selected\<close>

text \<open>
  Claim C4, as the specification states it: the number of selected sentences is
  \<open>ceil(n * target_ratio)\<close>. It fails for three sentences and the ratio one half, where
  the compressor selects one sentence and the ceiling is two.
\<close>

theorem fallback_ceil_counterexample:
  "length (selected ascii_db (1 / 2) (cp ''A. B. C.'') None)
     \<noteq> nat \<lceil>real (length (split_sentences (cp ''A. B. C.''))) * (1 / 2)\<rceil>"
proof -
  have n: "split_sentences (cp ''A. B. C.'') = [cp ''A.'', cp ''B.'', cp ''C.'']"
    by (simp add: split_sentences_def cp_def isspace_def strip_def)
  have k: "target_count (1 / 2) (cp ''A. B. C.'') = 1"
    by (simp add: target_count_def n py_int_def float_eval)
  show ?thesis
    by (simp add: selected_def k n sorted_sentences_def scored_sentences_def)
qed

text \<open>
  Claim C4, amended. With \<open>n\<close> sentences the compressor selects the first
  \<open>max(1, int(n * target_ratio))\<close> entries (all \<open>n\<close> if there are fewer) of the scored
  sentences in descending order of score, sentences of equal score staying in their
  original order; it emits, in original order, every sentence whose text is the text of a
  selected one. The product is the float product: \<open>n\<close> as a float times the ratio, rounded
  to the nearest double, so that five sentences at the ratio \<^verbatim>\<open>0.6\<close> select three. The
  selection followed by the unselected rest is a rearrangement of the scored sentences
  that is sorted by descending score and keeps, for every score, the sentences of that
  score in their original order.
\<close>

theorem fallback_selects_top:
  "\<exists>rest. mset (selected U ratio text q @ rest) = mset (scored_sentences U text q)
     \<and> sorted (map (\<lambda>x. - snd x) (selected U ratio text q @ rest))
     \<and> (\<forall>c. filter (\<lambda>x. snd x = c) (selected U ratio text q @ rest)
            = filter (\<lambda>x. snd x = c) (scored_sentences U text q))
     \<and> int (length (selected U ratio text q))
         = min (max 1 (py_int (float_mul (float_of_int (int (length (split_sentences text))))
                                 ratio)))
               (int (length (split_sentences text)))
     \<and> compressed U ratio text q
         = filter (\<lambda>s. s \<in> fst ` set (selected U ratio text q)) (split_sentences text)"
proof -
  let ?k = "nat (target_count ratio text)"
  let ?rest = "drop ?k (sorted_sentences U text q)"
  have app: "selected U ratio text q @ ?rest = sorted_sentences U text q"
    by (simp add: selected_def)
  have st: "filter (\<lambda>x. snd x = c) (sorted_sentences U text q)
            = filter (\<lambda>x. snd x = c) (scored_sentences U text q)" for c
    using sort_key_stable [of "\<lambda>x. - snd x" "- c" "scored_sentences U text q"]
    by (simp add: sorted_sentences_def)
  have len: "int (length (selected U ratio text q))
         = min (max 1 (py_int (float_mul (float_of_int (int (length (split_sentences text))))
                                 ratio)))
               (int (length (split_sentences text)))"
  proof -
    have "int (min (nat (target_count ratio text)) (length (split_sentences text)))
          = min (target_count ratio text) (int (length (split_sentences text)))"
      using target_count_pos [of ratio "text"] by linarith
    then show ?thesis
      by (simp add: selected_def length_sorted_sentences target_count_def min.commute)
  qed
  show ?thesis
    apply (rule exI [of _ ?rest])
    apply (simp only: app)
    apply (intro conjI allI)
        apply (simp add: sorted_sentences_def)
       apply (simp add: sorted_sentences_def)
      apply (rule st)
     apply (rule len)
    apply (simp add: compressed_def)
    done
qed

theorem fallback_selects_top_witness:
  "length (selected ascii_db (round_double (6 / 10)) (cp ''A. B. C. D. E.'') None) = 3
   \<and> round_double (6 / 10) = 5404319552844595 / 9007199254740992"
proof -
  have n: "split_sentences (cp ''A. B. C. D. E.'')
             = [cp ''A.'', cp ''B.'', cp ''C.'', cp ''D.'', cp ''E.'']"
    by (simp add: split_sentences_def cp_def isspace_def strip_def)
  have r: "round_double (6 / 10) = 5404319552844595 / 9007199254740992"
    by (simp add: float_eval)
  have k: "py_int (float_mul (float_of_int 5) (5404319552844595 / 9007199254740992)) = 3"
    by (simp add: py_int_def float_eval)
  have "int (length (selected ascii_db (round_double (6 / 10)) (cp ''A. B. C. D. E.'') None)) = 3"
    using fallback_selects_top [of ascii_db "round_double (6 / 10)" "cp ''A. B. C. D. E.''" None]
    unfolding r by (auto simp: n k)
  with r show ?thesis by simp
qed

section \<open>Facts about the regular expressions\<close>

lemma match_here_classes:
  "match_here r s = Some n \<Longrightarrow> \<forall>c\<in>set (take n s). \<exists>a\<in>set r. fst a c"
proof (induction r s arbitrary: n rule: match_here.induct)
  case (1 s) then show ?case by simp
next
  case (2 p r) then show ?case by simp
next
  case (3 p r c s) then show ?case by (fastforce split: if_splits)
next
  case (4 p r) then show ?case by (auto dest!: in_set_takeD)
next
  case (5 p r c s) then show ?case by (fastforce split: if_splits option.splits)
next
  case (6 p r) then show ?case by (auto dest!: in_set_takeD)
next
  case (7 p r c s) then show ?case by (fastforce split: if_splits option.splits)
next
  case (8 p r) then show ?case by simp
next
  case (9 p r c s) then show ?case by (fastforce split: if_splits)
qed

lemma match_here_mandatory:
  "match_here r s = Some n \<Longrightarrow> (p, One) \<in> set r \<Longrightarrow> \<exists>c\<in>set (take n s). p c"
proof (induction r s arbitrary: n rule: match_here.induct)
  case (1 s) then show ?case by simp
next
  case (2 p r) then show ?case by simp
next
  case (3 p' r c s) then show ?case by (fastforce split: if_splits)
next
  case (4 p' r) then show ?case by auto
next
  case (5 p' r c s) then show ?case by (fastforce split: if_splits option.splits)
next
  case (6 p' r) then show ?case by auto
next
  case (7 p' r c s) then show ?case by (fastforce split: if_splits option.splits)
next
  case (8 p' r) then show ?case by simp
next
  case (9 p' r c s) then show ?case by (fastforce split: if_splits)
qed

lemma finditer_from_match:
  "m \<in> set (finditer_from k r s) \<Longrightarrow> \<exists>s' n. match_here r s' = Some n \<and> m = take n s'"
proof (induction k r s rule: finditer_from.induct)
  case (1 k r)
  then show ?case by (auto split: if_splits intro: exI [of _ "[]"])
next
  case (2 k r c s) then show ?case by simp
next
  case (3 r c s)
  then show ?case
    by (auto split: option.splits nat.splits) (metis take_Suc_Cons take_0)+
qed

lemma finditer_chars:
  assumes "m \<in> set (finditer r s)"
  shows "(\<forall>c\<in>set m. \<exists>a\<in>set r. fst a c) \<and> (\<forall>p. (p, One) \<in> set r \<longrightarrow> (\<exists>c\<in>set m. p c))"
proof -
  obtain s' n where "match_here r s' = Some n" "m = take n s'"
    using assms finditer_from_match unfolding finditer_def by blast
  then show ?thesis
    using match_here_classes match_here_mandatory by blast
qed

lemma citation_pattern_atoms:
  assumes "r \<in> set (CITATION_PATTERNS U)" and "\<not> isdecimal U 95"
  shows "(chr 46, One) \<in> set r" and "\<forall>a\<in>set r. \<not> fst a 95"
  using assms
  by (auto simp: CITATION_PATTERNS_def lit_def chr_def isspace_def upper_AZ_def lower_az_def)

lemma citation_match_chars:
  assumes "r \<in> set (CITATION_PATTERNS U)" and "\<not> isdecimal U 95"
    and "m \<in> set (finditer r s)"
  shows "46 \<in> set m" and "95 \<notin> set m"
proof -
  from finditer_chars [OF assms(3)] citation_pattern_atoms [OF assms(1,2)]
  show "46 \<in> set m" by (auto simp: chr_def)
  from finditer_chars [OF assms(3)] citation_pattern_atoms(2) [OF assms(1,2)]
  show "95 \<notin> set m" by blast
qed

lemma finditer_from_subset: "m \<in> set (finditer_from k r s) \<Longrightarrow> set m \<subseteq> set s"
proof (induction k r s rule: finditer_from.induct)
  case (1 k r) then show ?case by (auto split: if_splits)
next
  case (2 k r c s) then show ?case by auto
next
  case (3 r c s)
  then show ?case
    by (auto split: option.splits nat.splits dest!: in_set_takeD)
qed

section \<open>Facts about placeholders\<close>

lemma str_nat_ne: "str_nat n \<noteq> []"
  by (subst str_nat.simps) simp

lemma str_nat_digits: "c \<in> set (str_nat n) \<Longrightarrow> 48 \<le> c \<and> c \<le> 57"
proof (induction n rule: str_nat.induct)
  case (1 n)
  show ?case
  proof (cases "n < 10")
    case True
    with 1(2) show ?thesis by (subst (asm) str_nat.simps) simp
  next
    case False
    from 1(2) have "c \<in> set (str_nat (n div 10)) \<or> c = 48 + n mod 10"
      using False by (subst (asm) str_nat.simps) auto
    then show ?thesis
    proof
      assume "c \<in> set (str_nat (n div 10))"
      with 1(1) False show ?thesis by simp
    next
      assume "c = 48 + n mod 10"
      then show ?thesis by simp
    qed
  qed
qed

lemma str_nat_no95: "95 \<notin> set (str_nat n)"
  using str_nat_digits [of 95 n] by auto

lemma str_nat_no46: "46 \<notin> set (str_nat n)"
  using str_nat_digits [of 46 n] by auto

lemma str_nat_length1: "length (str_nat n) = Suc 0 \<longleftrightarrow> n < 10"
proof (cases "n < 10")
  case True then show ?thesis by (subst str_nat.simps) simp
next
  case False
  have "length (str_nat (n div 10)) \<noteq> 0" using str_nat_ne by simp
  with False show ?thesis by (subst str_nat.simps) simp
qed

lemma str_nat_inj: "str_nat a = str_nat b \<Longrightarrow> a = b"
proof (induction a arbitrary: b rule: str_nat.induct)
  case (1 n)
  show ?case
  proof (cases "n < 10")
    case True
    then have "length (str_nat b) = Suc 0" using 1(2) str_nat_length1 [of n] by simp
    then have b: "b < 10" by (simp add: str_nat_length1)
    have en: "str_nat n = [48 + n]" using True by (subst str_nat.simps) simp
    have eb: "str_nat b = [48 + b]" using b by (subst str_nat.simps) simp
    from 1(2) have "[48 + n] = [48 + b]" unfolding en eb .
    then show ?thesis by simp
  next
    case False
    then have "length (str_nat b) \<noteq> Suc 0" using 1(2) str_nat_length1 [of n] by simp
    then have b: "\<not> b < 10" by (simp add: str_nat_length1)
    have en: "str_nat n = str_nat (n div 10) @ [48 + n mod 10]"
      using False by (subst str_nat.simps) simp
    have eb: "str_nat b = str_nat (b div 10) @ [48 + b mod 10]"
      using b by (subst str_nat.simps) simp
    from 1(2) have "str_nat (n div 10) @ [48 + n mod 10] = str_nat (b div 10) @ [48 + b mod 10]"
      unfolding en eb .
    then have "str_nat (n div 10) = str_nat (b div 10)" "n mod 10 = b mod 10"
      by simp_all
    with 1(1) [OF False] have "n div 10 = b div 10" "n mod 10 = b mod 10" by simp_all
    then show ?thesis by (metis div_mult_mod_eq)
  qed
qed

lemma placeholder_cons:
  "placeholder i j = 95 # 95 # 67 # 73 # 84 # 65 # 84 # 73 # 79 # 78 # 95
                       # (str_nat i @ 95 # str_nat j @ [95, 95])"
  by (simp add: placeholder_def cp_def)

lemma prefix_delim:
  "95 \<notin> set a \<Longrightarrow> 95 \<notin> set a' \<Longrightarrow> prefix (a @ 95 # x) (a' @ 95 # y) \<Longrightarrow> a = a' \<and> prefix x y"
proof (induction a arbitrary: a')
  case Nil
  then show ?case by (cases a') auto
next
  case (Cons c a)
  then show ?case by (cases a') auto
qed

lemma placeholder_not_prefix:
  assumes "prefix (placeholder i j) (placeholder i' j' @ rest)"
  shows "i = i' \<and> j = j'"
proof -
  from assms have "prefix (str_nat i @ 95 # str_nat j @ [95, 95])
                          (str_nat i' @ 95 # (str_nat j' @ 95 # 95 # rest))"
    by (simp add: placeholder_cons)
  then have a: "str_nat i = str_nat i'"
    and "prefix (str_nat j @ 95 # [95]) (str_nat j' @ 95 # 95 # rest)"
    using prefix_delim [OF str_nat_no95 str_nat_no95] by blast+
  then have "str_nat j = str_nat j'"
    using prefix_delim [OF str_nat_no95 str_nat_no95] by blast
  with a show ?thesis by (auto dest: str_nat_inj)
qed

lemma placeholder_inj: "placeholder i j = placeholder i' j' \<Longrightarrow> i = i' \<and> j = j'"
  using placeholder_not_prefix [of i j i' j' "[]"] by simp

lemma placeholder_no46: "46 \<notin> set (placeholder i j)"
  using str_nat_no46 by (simp add: placeholder_cons)

lemma placeholder_last: "last (placeholder i j) = 95"
  by (simp add: placeholder_cons)

lemma placeholder_ne: "placeholder i j \<noteq> []"
  by (simp add: placeholder_cons)

section \<open>Replacement on protected texts\<close>

lemma enc_Nil [simp]: "enc [] = []" by (simp add: enc_def)
lemma enc_Cons: "enc (t # ts) = enc1 t @ enc ts" by (simp add: enc_def)
lemma enc_append: "enc (a @ b) = enc a @ enc b" by (simp add: enc_def)
lemma enc_Lit: "enc (map Lit m) = m" by (induction m) (simp_all add: enc_Cons)

lemma replace_all_skip:
  "old \<noteq> [] \<Longrightarrow> hd old \<notin> set d \<Longrightarrow> replace_all old new (d @ rest) = d @ replace_all old new rest"
proof (induction d)
  case Nil then show ?case by simp
next
  case (Cons c d)
  then have "\<not> prefix old (c # d @ rest)" by (cases old) auto
  with Cons show ?case by simp
qed

lemma replace_all_prefix:
  "old \<noteq> [] \<Longrightarrow> replace_all old new (old @ rest) = new @ replace_all old new rest"
  by (cases old) simp_all

text \<open>The first underscore of such a text starts a placeholder.\<close>

lemma first_underscore:
  "list_all lit_ok ts \<Longrightarrow> enc ts = u @ 95 # v \<Longrightarrow> 95 \<notin> set u \<Longrightarrow> \<exists>v'. v = 95 # v'"
proof (induction ts arbitrary: u)
  case Nil then show ?case by simp
next
  case (Cons t ts)
  show ?case
  proof (cases t)
    case (Lit c)
    with Cons.prems have c: "c \<noteq> 95" and e: "c # enc ts = u @ 95 # v" by (simp_all add: enc_Cons)
    from e c obtain u' where u: "u = c # u'" by (cases u) auto
    with e Cons.prems have "enc ts = u' @ 95 # v" "95 \<notin> set u'" "list_all lit_ok ts" by simp_all
    with Cons.IH show ?thesis by blast
  next
    case (Ph i j)
    with Cons.prems have "placeholder i j @ enc ts = u @ 95 # v" by (simp add: enc_Cons)
    then have "u = []" using Cons.prems(3) by (cases u) (auto simp: placeholder_cons)
    with \<open>placeholder i j @ enc ts = u @ 95 # v\<close> show ?thesis
      by (auto simp: placeholder_cons)
  qed
qed

lemma enc_no_prefix1:
  assumes "list_all lit_ok ts" and "95 \<notin> set w" and "d \<noteq> 95"
  shows "\<not> prefix (w @ 95 # d # x) (enc ts)"
proof
  assume "prefix (w @ 95 # d # x) (enc ts)"
  then obtain tl where "enc ts = w @ 95 # (d # x @ tl)" by (auto simp: prefix_def)
  from first_underscore [OF assms(1) this assms(2)] assms(3) show False by simp
qed

lemma replace_all_other_placeholder:
  assumes ne: "\<not> (i = i' \<and> j = j')" and wf: "list_all lit_ok ts"
  shows "replace_all (placeholder i j) new (placeholder i' j' @ enc ts)
         = placeholder i' j' @ replace_all (placeholder i j) new (enc ts)"
proof -
  let ?P = "placeholder i j"
  obtain d ds where si: "str_nat i = d # ds" using str_nat_ne [of i] by (cases "str_nat i") auto
  have d: "d \<noteq> 95" using str_nat_no95 [of i] si by auto
  obtain e es where sj': "str_nat j' = e # es"
    using str_nat_ne [of j'] by (cases "str_nat j'") auto
  have e: "e \<noteq> 95" using str_nat_no95 [of j'] sj' by auto
  have hd: "hd ?P = 95" "?P \<noteq> []" by (simp_all add: placeholder_cons)
  have n0: "\<not> prefix ?P (placeholder i' j' @ enc ts)"
    using placeholder_not_prefix ne by blast
  have n1: "\<not> prefix ?P (95 # 95 # enc ts)"
  proof
    assume "prefix ?P (95 # 95 # enc ts)"
    then have "prefix ([67, 73, 84, 65, 84, 73, 79, 78] @ 95 # d # (ds @ 95 # str_nat j @ [95, 95]))
                 (enc ts)"
      by (simp add: placeholder_cons si)
    with enc_no_prefix1 [OF wf, of "[67, 73, 84, 65, 84, 73, 79, 78]" d] d show False by simp
  qed
  have n2: "\<not> prefix ?P (95 # enc ts)"
  proof
    assume "prefix ?P (95 # enc ts)"
    then have "prefix ([] @ 95 # 67 # (73 # 84 # 65 # 84 # 73 # 79 # 78 # 95 # str_nat i @ 95 # str_nat j @ [95, 95]))
                 (enc ts)"
      by (simp add: placeholder_cons)
    with enc_no_prefix1 [OF wf, of "[]" 67] show False by simp
  qed
  have t1: "replace_all ?P new (95 # 95 # enc ts) = 95 # 95 # replace_all ?P new (enc ts)"
    using n1 n2 hd by simp
  have n3: "\<not> prefix ?P (95 # str_nat j' @ 95 # 95 # enc ts)"
    using e by (simp add: placeholder_cons sj')
  have t2: "replace_all ?P new (str_nat j' @ 95 # 95 # enc ts)
            = str_nat j' @ 95 # 95 # replace_all ?P new (enc ts)"
    using replace_all_skip [of ?P "str_nat j'" new "95 # 95 # enc ts"] hd str_nat_no95 t1
    by simp
  have t3: "replace_all ?P new (95 # str_nat j' @ 95 # 95 # enc ts)
            = 95 # str_nat j' @ 95 # 95 # replace_all ?P new (enc ts)"
    using n3 hd t2 by simp
  have t4: "replace_all ?P new (str_nat i' @ 95 # str_nat j' @ 95 # 95 # enc ts)
            = str_nat i' @ 95 # str_nat j' @ 95 # 95 # replace_all ?P new (enc ts)"
    using replace_all_skip [of ?P "str_nat i'" new "95 # str_nat j' @ 95 # 95 # enc ts"]
      hd str_nat_no95 t3 by simp
  obtain d' ds' where si': "str_nat i' = d' # ds'"
    using str_nat_ne [of i'] by (cases "str_nat i'") auto
  have d': "d' \<noteq> 95" using str_nat_no95 [of i'] si' by auto
  have n4: "\<not> prefix ?P (95 # str_nat i' @ 95 # str_nat j' @ 95 # 95 # enc ts)"
    using d' by (simp add: placeholder_cons si')
  show ?thesis
    using n0 n4 t4 by (simp add: placeholder_cons)
qed

lemma subst_Nil [simp]: "subst e [] = []" by (simp add: subst_def split: prod.splits)
lemma subst_Cons: "subst (i, j, m) (t # ts) = subst1 i j m t @ subst (i, j, m) ts"
  by (simp add: subst_def)
lemma subst_append: "subst e (a @ b) = subst e a @ subst e b"
  by (simp add: subst_def split: prod.splits)
lemma subst_Lit: "subst e (map Lit x) = map Lit x"
  by (induction x) (auto simp: subst_def split: prod.splits)

lemma lit_ok_map_Lit: "list_all lit_ok (map Lit m) \<longleftrightarrow> 95 \<notin> set m"
  by (induction m) auto

lemma lit_ok_subst:
  "list_all lit_ok ts \<Longrightarrow> 95 \<notin> set m \<Longrightarrow> list_all lit_ok (subst (i, j, m) ts)"
proof (induction ts)
  case Nil then show ?case by simp
next
  case (Cons t ts)
  then have "list_all lit_ok (subst1 i j m t)"
    by (cases t) (auto simp: lit_ok_map_Lit)
  with Cons show ?case by (simp add: subst_Cons)
qed

lemma replace_all_enc:
  "list_all lit_ok ts \<Longrightarrow> replace_all (placeholder i j) m (enc ts) = enc (subst (i, j, m) ts)"
proof (induction ts)
  case Nil
  then show ?case by (simp add: placeholder_ne)
next
  case (Cons t ts)
  show ?case
  proof (cases t)
    case (Lit c)
    with Cons.prems have "c \<noteq> 95" by simp
    then have "\<not> prefix (placeholder i j) (c # enc ts)" by (simp add: placeholder_cons)
    with Cons Lit show ?thesis by (simp add: enc_Cons subst_Cons placeholder_ne)
  next
    case (Ph a b)
    show ?thesis
    proof (cases "a = i \<and> b = j")
      case True
      with Cons Ph show ?thesis
        by (simp add: enc_Cons subst_Cons replace_all_prefix placeholder_ne enc_append enc_Lit)
    next
      case False
      then have "\<not> (i = a \<and> j = b)" by auto
      from replace_all_other_placeholder [OF this, of ts m] Cons Ph False show ?thesis
        by (auto simp: enc_Cons subst_Cons)
    qed
  qed
qed

lemma restore_enc:
  "list_all lit_ok ts \<Longrightarrow> \<forall>e\<in>set es. 95 \<notin> set (snd (snd e))
   \<Longrightarrow> restore_citations (enc ts) (map entry es) = enc (foldl (\<lambda>ts e. subst e ts) ts es)"
proof (induction es arbitrary: ts)
  case Nil
  then show ?case by (simp add: restore_citations_def)
next
  case (Cons e es)
  obtain i j m where e: "e = (i, j, m)" by (cases e) auto
  with Cons.prems have m: "95 \<notin> set m" by simp
  have ok: "list_all lit_ok (subst (i, j, m) ts)" by (rule lit_ok_subst [OF Cons.prems(1) m])
  have "restore_citations (enc ts) (map entry (e # es))
        = restore_citations (replace_all (placeholder i j) m (enc ts)) (map entry es)"
    by (simp add: restore_citations_def e entry_def)
  also have "\<dots> = restore_citations (enc (subst (i, j, m) ts)) (map entry es)"
    by (simp add: replace_all_enc [OF Cons.prems(1)])
  also have "\<dots> = enc (foldl (\<lambda>ts e. subst e ts) (subst (i, j, m) ts) es)"
    using Cons.IH [OF ok] Cons.prems(2) by simp
  finally show ?case by (simp add: e)
qed

text \<open>The first replacement puts a placeholder token in the place of literal characters.\<close>

lemma enc_prefix_lits:
  "list_all lit_ok ts \<Longrightarrow> 95 \<notin> set m \<Longrightarrow> prefix m (enc ts)
   \<Longrightarrow> \<exists>b. ts = map Lit m @ b"
proof (induction m arbitrary: ts)
  case Nil then show ?case by simp
next
  case (Cons c m)
  then obtain t ts' where ts: "ts = t # ts'" by (cases ts) auto
  show ?case
  proof (cases t)
    case (Lit x)
    with Cons.prems ts have "x = c" "prefix m (enc ts')" "list_all lit_ok ts'" "95 \<notin> set m"
      by (simp_all add: enc_Cons)
    with Cons.IH [of ts'] obtain b where "ts' = map Lit m @ b" by blast
    with ts Lit \<open>x = c\<close> show ?thesis by simp
  next
    case (Ph i j)
    with Cons.prems ts show ?thesis by (simp add: enc_Cons placeholder_cons)
  qed
qed

lemma replace_first_skip:
  assumes "46 \<in> set m" and "95 \<notin> set m"
  shows "46 \<notin> set x \<Longrightarrow> (x \<noteq> [] \<Longrightarrow> last x = 95)
         \<Longrightarrow> replace_first m p (x @ rest) = x @ replace_first m p rest"
proof (induction x)
  case Nil then show ?case by simp
next
  case (Cons c x)
  have np: "\<not> prefix m (c # x @ rest)"
  proof
    assume "prefix m (c # x @ rest)"
    then have "prefix m ((c # x) @ rest)" by simp
    then consider "prefix m (c # x)" | us where "m = (c # x) @ us"
      unfolding prefix_append by blast
    then show False
    proof cases
      case 1
      then have "set m \<subseteq> set (c # x)" by (rule set_mono_prefix)
      with assms(1) Cons.prems(1) show False by auto
    next
      case 2
      have "last (c # x) = 95" using Cons.prems(2) by simp
      moreover have "last (c # x) \<in> set (c # x)" by (rule last_in_set) simp
      ultimately have "95 \<in> set m" using 2 by auto
      with assms(2) show False by simp
    qed
  qed
  have "replace_first m p (x @ rest) = x @ replace_first m p rest"
    using Cons by (cases "x = []") auto
  with np show ?case by simp
qed

lemma replace_first_enc:
  assumes m: "46 \<in> set m" "95 \<notin> set m"
  shows "list_all lit_ok ts \<Longrightarrow>
         replace_first m (placeholder i j) (enc ts) = enc ts
         \<or> (\<exists>a b. ts = a @ map Lit m @ b
                 \<and> replace_first m (placeholder i j) (enc ts) = enc (a @ Ph i j # b))"
proof (induction ts)
  case Nil
  with m show ?case by auto
next
  case (Cons t ts)
  then have wf: "list_all lit_ok ts" by simp
  show ?case
  proof (cases t)
    case (Lit c)
    show ?thesis
    proof (cases "prefix m (c # enc ts)")
      case True
      then have "prefix m (enc (t # ts))" by (simp add: enc_Cons Lit)
      from enc_prefix_lits [OF Cons.prems m(2) this] obtain b where b: "t # ts = map Lit m @ b"
        by blast
      then have e: "enc (t # ts) = m @ enc b" by (simp add: enc_append enc_Lit)
      have "drop (length m) (c # enc ts) = enc b"
        using e by (simp add: enc_Cons Lit)
      then have "replace_first m (placeholder i j) (enc (t # ts)) = placeholder i j @ enc b"
        using True by (simp add: enc_Cons Lit)
      then have "replace_first m (placeholder i j) (enc (t # ts)) = enc ([] @ Ph i j # b)"
        by (simp add: enc_Cons)
      with b show ?thesis by (metis append_Nil)
    next
      case False
      from Cons.IH [OF wf] show ?thesis
      proof
        assume "replace_first m (placeholder i j) (enc ts) = enc ts"
        with False show ?thesis by (simp add: enc_Cons Lit)
      next
        assume "\<exists>a b. ts = a @ map Lit m @ b
                 \<and> replace_first m (placeholder i j) (enc ts) = enc (a @ Ph i j # b)"
        then obtain a b where "ts = a @ map Lit m @ b"
          "replace_first m (placeholder i j) (enc ts) = enc (a @ Ph i j # b)" by blast
        then have "t # ts = (t # a) @ map Lit m @ b"
          "replace_first m (placeholder i j) (enc (t # ts)) = enc ((t # a) @ Ph i j # b)"
          using False by (simp_all add: enc_Cons Lit)
        then show ?thesis by blast
      qed
    qed
  next
    case (Ph a' b')
    have sk: "replace_first m (placeholder i j) (enc (t # ts))
              = placeholder a' b' @ replace_first m (placeholder i j) (enc ts)"
      using replace_first_skip [OF m, of "placeholder a' b'" "placeholder i j" "enc ts"]
        placeholder_no46 placeholder_last by (simp add: enc_Cons Ph)
    from Cons.IH [OF wf] show ?thesis
    proof
      assume "replace_first m (placeholder i j) (enc ts) = enc ts"
      with sk show ?thesis by (simp add: enc_Cons Ph)
    next
      assume "\<exists>a b. ts = a @ map Lit m @ b
               \<and> replace_first m (placeholder i j) (enc ts) = enc (a @ Ph i j # b)"
      then obtain a b where "ts = a @ map Lit m @ b"
        "replace_first m (placeholder i j) (enc ts) = enc (a @ Ph i j # b)" by blast
      then have "t # ts = (t # a) @ map Lit m @ b"
        "replace_first m (placeholder i j) (enc (t # ts)) = enc ((t # a) @ Ph i j # b)"
        using sk by (simp_all add: enc_Cons Ph)
      then show ?thesis by blast
    qed
  qed
qed

lemma restored_append: "restored es (x @ y) = restored es x @ restored es y"
  unfolding restored_def by (induction es arbitrary: x y) (simp_all add: subst_append)

lemma restored_Lit: "restored es (map Lit x) = map Lit x"
  unfolding restored_def by (induction es) (simp_all add: subst_Lit)

lemma restored_snoc: "restored (es @ [e]) ts = subst e (restored es ts)"
  by (simp add: restored_def)

lemma restored_fresh:
  "\<forall>e\<in>set es. \<not> (fst e = i \<and> fst (snd e) = j) \<Longrightarrow> restored es [Ph i j] = [Ph i j]"
  unfolding restored_def
proof (induction es)
  case Nil then show ?case by simp
next
  case (Cons e es)
  obtain a b m where e: "e = (a, b, m)" by (cases e) auto
  with Cons.prems have "subst e [Ph i j] = [Ph i j]" by (auto simp: subst_def)
  with Cons show ?case by simp
qed

lemma update_fresh: "k \<notin> fst ` set al \<Longrightarrow> AList.update k v al = al @ [(k, v)]"
  by (induction al) auto

lemma guard_step:
  assumes inv: "guard_inv T0 ts es"
    and m: "46 \<in> set m" "95 \<notin> set m"
    and fresh: "\<forall>e\<in>set es. \<not> (fst e = i \<and> fst (snd e) = j)"
  shows "\<exists>ts'. replace_first m (placeholder i j) (enc ts) = enc ts'
           \<and> guard_inv T0 ts' (es @ [(i, j, m)])"
    and "AList.update (placeholder i j) m (map entry es) = map entry (es @ [(i, j, m)])"
proof -
  from inv have wf: "list_all lit_ok ts" and r: "restored es ts = map Lit T0"
    and ms: "list_all (\<lambda>e. 95 \<notin> set (snd (snd e))) es"
    by (simp_all add: guard_inv_def)
  have ms': "list_all (\<lambda>e. 95 \<notin> set (snd (snd e))) (es @ [(i, j, m)])"
    using ms m by simp
  from replace_first_enc [OF m wf, of i j]
  show "\<exists>ts'. replace_first m (placeholder i j) (enc ts) = enc ts'
           \<and> guard_inv T0 ts' (es @ [(i, j, m)])"
  proof
    assume same: "replace_first m (placeholder i j) (enc ts) = enc ts"
    have "restored (es @ [(i, j, m)]) ts = map Lit T0"
      by (simp add: restored_snoc r subst_Lit)
    with same wf ms' show ?thesis by (auto simp: guard_inv_def)
  next
    assume "\<exists>a b. ts = a @ map Lit m @ b
             \<and> replace_first m (placeholder i j) (enc ts) = enc (a @ Ph i j # b)"
    then obtain a b where ts: "ts = a @ map Lit m @ b"
      and rf: "replace_first m (placeholder i j) (enc ts) = enc (a @ Ph i j # b)" by blast
    from r ts have "restored es a @ map Lit m @ restored es b = map Lit T0"
      by (simp add: restored_append restored_Lit)
    then obtain A B where A: "restored es a = map Lit A" and B: "map Lit m @ restored es b = map Lit B"
      unfolding append_eq_map_conv by blast
    then obtain B' where B': "restored es b = map Lit B'"
      unfolding append_eq_map_conv by blast
    have "restored (es @ [(i, j, m)]) (a @ Ph i j # b)
          = subst (i, j, m) (restored es a @ restored es [Ph i j] @ restored es b)"
      using restored_append [of es a "[Ph i j] @ b"] restored_append [of es "[Ph i j]" b]
      by (simp add: restored_snoc)
    also have "\<dots> = subst (i, j, m) (map Lit A @ [Ph i j] @ map Lit B')"
      by (simp add: A B' restored_fresh [OF fresh])
    also have "\<dots> = map Lit A @ map Lit m @ map Lit B'"
      by (simp add: subst_append subst_Lit subst_Cons)
    also have "\<dots> = restored es ts"
      by (simp add: ts restored_append restored_Lit A B')
    finally have r': "restored (es @ [(i, j, m)]) (a @ Ph i j # b) = map Lit T0"
      using r by simp
    have "list_all lit_ok (a @ Ph i j # b)" using wf ts by simp
    with r' rf ms' show ?thesis by (auto simp: guard_inv_def)
  qed
  have "placeholder i j \<notin> fst ` set (map entry es)"
  proof
    assume "placeholder i j \<in> fst ` set (map entry es)"
    then obtain e where e: "e \<in> set es" "fst (entry e) = placeholder i j" by auto
    obtain a b x where "e = (a, b, x)" by (cases e) auto
    with e fresh placeholder_inj [of a b i j] show False by (auto simp: entry_def)
  qed
  then show "AList.update (placeholder i j) m (map entry es) = map entry (es @ [(i, j, m)])"
    by (simp add: update_fresh entry_def)
qed

lemma protect_matches_inv:
  assumes good: "\<forall>m\<in>set ms. 46 \<in> set m \<and> 95 \<notin> set m"
  shows "guard_inv T0 ts es
     \<Longrightarrow> \<forall>e\<in>set es. fst e < i \<or> (fst e = i \<and> fst (snd e) < j)
     \<Longrightarrow> \<exists>ts' es'. protect_matches i j ms (enc ts, map entry es) = (enc ts', map entry es')
            \<and> guard_inv T0 ts' es' \<and> (\<forall>e\<in>set es'. fst e \<le> i)"
  using good
proof (induction ms arbitrary: j ts es)
  case Nil
  then show ?case by (auto intro: less_imp_le)
next
  case (Cons m ms)
  from Cons.prems(3) have m: "46 \<in> set m" "95 \<notin> set m" by simp_all
  have fresh: "\<forall>e\<in>set es. \<not> (fst e = i \<and> fst (snd e) = j)"
    using Cons.prems(2) by auto
  from guard_step(1) [OF Cons.prems(1) m fresh] obtain ts1 where
    t1: "replace_first m (placeholder i j) (enc ts) = enc ts1"
    and i1: "guard_inv T0 ts1 (es @ [(i, j, m)])" by blast
  note u1 = guard_step(2) [OF Cons.prems(1) m fresh]
  have idx: "\<forall>e\<in>set (es @ [(i, j, m)]). fst e < i \<or> (fst e = i \<and> fst (snd e) < Suc j)"
    using Cons.prems(2) by auto
  have "\<forall>m\<in>set ms. 46 \<in> set m \<and> 95 \<notin> set m" using Cons.prems(3) by simp
  from Cons.IH [OF i1 idx this] show ?case
    by (simp add: t1 u1)
qed

lemma protect_patterns_inv:
  assumes U: "\<not> isdecimal U 95"
  shows "set ps \<subseteq> set (CITATION_PATTERNS U) \<Longrightarrow> guard_inv T0 ts es
     \<Longrightarrow> \<forall>e\<in>set es. fst e < i
     \<Longrightarrow> \<exists>ts' es'. protect_patterns i ps (enc ts, map entry es) = (enc ts', map entry es')
            \<and> guard_inv T0 ts' es'"
proof (induction ps arbitrary: i ts es)
  case Nil
  then show ?case by auto
next
  case (Cons p ps)
  then have p: "p \<in> set (CITATION_PATTERNS U)" by simp
  have good: "\<forall>m\<in>set (finditer p (enc ts)). 46 \<in> set m \<and> 95 \<notin> set m"
    using citation_match_chars [OF p U] by blast
  have idx: "\<forall>e\<in>set es. fst e < i \<or> (fst e = i \<and> fst (snd e) < 0)"
    using Cons.prems(3) by simp
  from protect_matches_inv [OF good Cons.prems(2) idx] obtain ts1 es1 where
    s1: "protect_matches i 0 (finditer p (enc ts)) (enc ts, map entry es) = (enc ts1, map entry es1)"
    and i1: "guard_inv T0 ts1 es1" and x1: "\<forall>e\<in>set es1. fst e \<le> i" by blast
  have "set ps \<subseteq> set (CITATION_PATTERNS U)" using Cons.prems(1) by simp
  moreover have "\<forall>e\<in>set es1. fst e < Suc i" using x1 by auto
  ultimately show ?case using Cons.IH [OF _ i1] by (simp add: s1)
qed

subsection \<open>Round trip of the citation guard\<close>

text \<open>
  Claim C1, as the specification states it: for every text, restoring the protected text
  gives the text back. It fails for a text that already holds a placeholder: in
  \<^verbatim>\<open>__CITATION_0_0__ 1 U.S. 2\<close> the citation is replaced by the placeholder that the text
  already contains, and the restoration turns both into the citation.
\<close>

theorem citation_round_trip_counterexample:
  "restore_citations (fst (protect_citations ascii_db (cp ''__CITATION_0_0__ 1 U.S. 2'')))
                     (snd (protect_citations ascii_db (cp ''__CITATION_0_0__ 1 U.S. 2'')))
     = cp ''1 U.S. 2 1 U.S. 2''"
  by (simp add: protect_citations_def CITATION_PATTERNS_def restore_citations_def finditer_def
        lit_def chr_def isspace_def upper_AZ_def lower_az_def ascii_db_def cp_def
        placeholder_def str_nat.simps)

text \<open>
  Claim C1, amended. For every text that contains no underscore, and so neither a
  placeholder nor a piece of one, restoring the protected text with the citation map gives
  the text back. The Unicode table of decimal digits is arbitrary, but the underscore is
  not a digit.
\<close>

theorem citation_round_trip:
  assumes "\<not> isdecimal U 95" and "95 \<notin> set t"
  shows "restore_citations (fst (protect_citations U t)) (snd (protect_citations U t)) = t"
proof -
  have i0: "guard_inv t (map Lit t) []"
    using assms(2) by (simp add: guard_inv_def restored_def lit_ok_map_Lit)
  from protect_patterns_inv [OF assms(1) subset_refl i0, of 0] obtain ts es where
    p: "protect_citations U t = (enc ts, map entry es)" and inv: "guard_inv t ts es"
    by (auto simp: protect_citations_def enc_Lit)
  from inv have "restore_citations (enc ts) (map entry es) = enc (restored es ts)"
    unfolding restored_def by (intro restore_enc) (auto simp: guard_inv_def list_all_iff)
  also have "\<dots> = t" using inv by (simp add: guard_inv_def enc_Lit)
  finally show ?thesis by (simp add: p)
qed

theorem citation_round_trip_witness:
  "\<not> isdecimal ascii_db 95 \<and> 95 \<notin> set (cp ''See Brown v. Board, 347 U.S. 483 (1954).'')
   \<and> restore_citations
        (fst (protect_citations ascii_db (cp ''See Brown v. Board, 347 U.S. 483 (1954).'')))
        (snd (protect_citations ascii_db (cp ''See Brown v. Board, 347 U.S. 483 (1954).'')))
       = cp ''See Brown v. Board, 347 U.S. 483 (1954).''"
proof -
  have a: "\<not> isdecimal ascii_db 95" by (simp add: ascii_db_def)
  have b: "95 \<notin> set (cp ''See Brown v. Board, 347 U.S. 483 (1954).'')" by (simp add: cp_def)
  show ?thesis using a b citation_round_trip [OF a b] by simp
qed

section \<open>Facts about the query engine and the model-delegating compressor\<close>

text \<open>A text without a full stop holds no citation: the guard leaves it as it is.\<close>

lemma citation_no_dot_no_match:
  assumes "r \<in> set (CITATION_PATTERNS U)" and "46 \<notin> set s"
  shows "finditer r s = []"
proof (rule ccontr)
  assume "finditer r s \<noteq> []"
  then obtain m where m: "m \<in> set (finditer r s)" by (cases "finditer r s") auto
  have "(chr 46, One) \<in> set r"
    using assms(1) by (auto simp: CITATION_PATTERNS_def lit_def)
  with finditer_chars [OF m] have "46 \<in> set m" by (auto simp: chr_def)
  moreover have "set m \<subseteq> set s" using m finditer_from_subset unfolding finditer_def by blast
  ultimately show False using assms(2) by auto
qed

lemma protect_patterns_no_dot:
  "set ps \<subseteq> set (CITATION_PATTERNS U) \<Longrightarrow> 46 \<notin> set s
   \<Longrightarrow> protect_patterns i ps (s, cm) = (s, cm)"
proof (induction ps arbitrary: i)
  case Nil then show ?case by simp
next
  case (Cons p ps)
  then have "finditer p s = []" using citation_no_dot_no_match [of p U s] by simp
  with Cons show ?case by simp
qed

lemma protect_citations_no_dot: "46 \<notin> set s \<Longrightarrow> protect_citations U s = (s, [])"
  unfolding protect_citations_def by (rule protect_patterns_no_dot [OF subset_refl])

lemma extract_citations_no_dot: "46 \<notin> set s \<Longrightarrow> extract_citations U s = []"
proof -
  have "map (\<lambda>p. finditer p s) (CITATION_PATTERNS U) = map (\<lambda>p. []) (CITATION_PATTERNS U)"
    if "46 \<notin> set s"
    using that citation_no_dot_no_match [of _ U s] by (intro map_cong refl) simp
  then show "46 \<notin> set s \<Longrightarrow> extract_citations U s = []"
    by (simp add: extract_citations_def)
qed

lemma format_one_match: "format_context [one_match] = cp ''[Document 1]'' @ [10] @ replicate 387 97"
  by (simp add: format_context_def context_part_def source_info_def one_match_def str_nat.simps cp_def)

lemma query_example:
  "query stub_services ascii_db llmlingua_engine (cp ''What was held?'') None True
     = Inr (\<lparr> answer = cp ''answer'', sources = [one_match],
               compressed_context = replicate 120 120,
               token_stats = [(''original'', 100), (''compressed'', 30), (''savings'', 70),
                              (''savings_percent'', 70)],
               response_query = cp ''What was held?'' \<rparr>,
             llmlingua_engine\<lparr> engine_compressor :=
                                  Some (LLMLingua (default_compressor\<lparr>initialized := True\<rparr>)),
                                openai_client := True \<rparr>)"
proof -
  have nd: "46 \<notin> set (format_context [one_match])"
    by (simp add: format_one_match cp_def)
  have len: "length (format_context [one_match]) = 400"
    by (simp add: format_one_match cp_def)
  show ?thesis
    by (simp add: query_def llmlingua_engine_def stub_services_def compress_def Let_def
          ensure_initialized_def default_compressor_def protect_citations_no_dot [OF nd]
          extract_citations_no_dot [OF nd] restore_citations_def estimate_tokens_def len
          generate_response_def get_openai_client_def make_token_stats_def cp_def)
qed

lemma combined_one_match:
  "combined_text [one_match] = cp ''[Source: Unknown]'' @ [10] @ replicate 387 97"
  by (simp add: combined_text_def one_match_def cp_def)

lemma tokens_one_match: "estimate_tokens (combined_text [one_match]) = 101"
  by (simp add: combined_one_match estimate_tokens_def cp_def)



lemma compress_chunks_example:
  "compress_chunks stub_services ascii_db default_compressor [one_match] (cp ''What was held?'') 30
     = Inr (replicate 120 120, default_compressor\<lparr>initialized := True\<rparr>)"
proof -
  have nd: "46 \<notin> set (combined_text [one_match])"
    by (simp add: combined_one_match cp_def)
  show ?thesis
    by (simp add: compress_chunks_def compress_def Let_def ensure_initialized_def
          stub_services_def default_compressor_def tighten_ratio_def
          protect_citations_no_dot [OF nd] extract_citations_no_dot [OF nd]
          restore_citations_def cp_def)
qed

lemma call_compress_tokens:
  "call_compress E U c t q p = Inr (res, c')
   \<Longrightarrow> compressed_tokens res = int (length (compressed_text res)) div 4"
  by (cases "(E, U, c, t, q, p)" rule: call_compress.cases)
     (auto simp: compress_def fallback_compress_def estimate_tokens_def Let_def
           split: sum.splits prod.splits)

subsection \<open>Empty retrieval\<close>

text \<open>
  Claim C7. If the engine has a store and the store's search returns no match, \<^verbatim>\<open>query\<close>
  returns, without raising and without touching the engine, a response whose answer
  contains \<^verbatim>\<open>No relevant documents found\<close>, whose sources are empty and whose token
  statistics are all zero, \<^verbatim>\<open>original\<close> included.
\<close>

theorem query_empty_retrieval:
  assumes "vector_store eng = Some search"
    and "search question (top_k eng) flt = Inr []"
  shows "\<exists>r. query E U eng question flt inc = Inr (r, eng)
           \<and> sublist (cp ''No relevant documents found'') (answer r)
           \<and> sources r = []
           \<and> snd ` set (token_stats r) = {0}
           \<and> map_of (token_stats r) ''original'' = Some 0"
proof -
  have "prefix (cp ''No relevant documents found'')
          (cp ''No relevant documents found for your query.'')"
    by (simp add: cp_def)
  then have "sublist (cp ''No relevant documents found'')
          (cp ''No relevant documents found for your query.'')"
    by (rule prefix_imp_sublist)
  with assms show ?thesis
    by (simp add: query_def)
qed

theorem query_empty_retrieval_witness:
  "vector_store empty_store_engine = Some (\<lambda>q k f. Inr [])
   \<and> (\<exists>r. query no_services ascii_db empty_store_engine (cp ''irrelevant'') None True
             = Inr (r, empty_store_engine)
          \<and> sublist (cp ''No relevant documents found'') (answer r)
          \<and> sources r = []
          \<and> snd ` set (token_stats r) = {0}
          \<and> map_of (token_stats r) ''original'' = Some 0)"
proof -
  have a: "vector_store empty_store_engine = Some (\<lambda>q k f. Inr [])"
    by (simp add: empty_store_engine_def)
  have b: "(\<lambda>q k f. Inr []) (cp ''irrelevant'') (top_k empty_store_engine) None
            = (Inr [] :: py_error + RetrievedMatch list)"
    by simp
  show ?thesis
    using a query_empty_retrieval [OF a b, where E = no_services and U = ascii_db and inc = True] by simp
qed

subsection \<open>Token statistics\<close>

text \<open>
  Claim C8. When the search finds something and \<^verbatim>\<open>query\<close> returns, the token statistics
  of the response are: \<^verbatim>\<open>original\<close>, a quarter (rounded down) of the length of the
  formatted context; \<^verbatim>\<open>compressed\<close>, a quarter of the length of the context handed to
  the generation; \<^verbatim>\<open>savings\<close>, their difference; \<^verbatim>\<open>savings_percent\<close>, the savings divided by
  the original and multiplied by 100, and 0 if the original is 0. A context of 400
  characters compressed to 120 gives 100, 30, 70 and 70.
\<close>

theorem query_token_stats:
  assumes "vector_store eng = Some search"
    and "search question (top_k eng) flt = Inr cs"
    and "cs \<noteq> []"
    and "query E U eng question flt inc = Inr (r, eng')"
  shows "token_stats r =
           [(''original'', real_of_int (int (length (format_context cs)) div 4)),
            (''compressed'', real_of_int (int (length (compressed_context r)) div 4)),
            (''savings'', real_of_int (int (length (format_context cs)) div 4
                                       - int (length (compressed_context r)) div 4)),
            (''savings_percent'',
               (if int (length (format_context cs)) div 4 = 0 then 0
                else real_of_int (int (length (format_context cs)) div 4
                                  - int (length (compressed_context r)) div 4)
                     / real_of_int (int (length (format_context cs)) div 4) * 100))]
       \<and> (length (format_context cs) = 400 \<and> length (compressed_context r) = 120
            \<longrightarrow> token_stats r = [(''original'', 100), (''compressed'', 30), (''savings'', 70),
                                 (''savings_percent'', 70)])"
proof -
  let ?o = "int (length (format_context cs)) div 4"
  let ?c = "int (length (compressed_context r)) div 4"
  have ts: "token_stats r = make_token_stats ?o ?c"
    using assms
    by (auto simp: query_def Let_def generate_response_def
             split: option.splits sum.splits if_splits prod.splits
             dest: call_compress_tokens)
  have pos: "(?o > 0) = (?o \<noteq> 0)" by linarith
  show ?thesis
    unfolding ts make_token_stats_def by (simp add: pos)
qed

theorem query_token_stats_witness:
  "length (format_context [one_match]) = 400
   \<and> (\<exists>r e. query stub_services ascii_db llmlingua_engine (cp ''What was held?'') None True
                = Inr (r, e)
            \<and> length (compressed_context r) = 120
            \<and> token_stats r = [(''original'', 100), (''compressed'', 30), (''savings'', 70),
                               (''savings_percent'', 70)])"
proof -
  have a: "vector_store llmlingua_engine = Some (\<lambda>q k f. Inr [one_match])"
    by (simp add: llmlingua_engine_def)
  have b: "(\<lambda>q k f. Inr [one_match]) (cp ''What was held?'') (top_k llmlingua_engine) None
             = (Inr [one_match] :: py_error + RetrievedMatch list)"
    by simp
  have c: "[one_match] \<noteq> []" by simp
  have len: "length (format_context [one_match]) = 400"
    by (simp add: format_one_match cp_def)
  note th = query_token_stats [OF a b c query_example]
  from th len have "token_stats \<lparr> answer = cp ''answer'', sources = [one_match],
               compressed_context = replicate 120 120,
               token_stats = [(''original'', 100), (''compressed'', 30), (''savings'', 70),
                              (''savings_percent'', 70)],
               response_query = cp ''What was held?'' \<rparr>
          = [(''original'', 100), (''compressed'', 30), (''savings'', 70),
             (''savings_percent'', 70)]"
    by simp
  with len query_example show ?thesis by simp
qed

subsection \<open>Adaptive budget\<close>

lemma half_is_double: "round_double (1 / 2) = 1 / 2"
  by (simp add: float_eval)

text \<open>
  The test of \<^verbatim>\<open>compress_chunks\<close> compares the rounded quotient with the configured
  ratio. If it holds, the current tokens times the ratio do exceed the budget; if they do,
  the quotient is at most the ratio, and the test fails only when the quotient rounds to
  the ratio itself.
\<close>

lemma tighten_test_exceeds:
  assumes "round_double t = t" "0 < cur" "int_truediv mx cur < t"
  shows "real_of_int mx < real_of_int cur * t"
proof (rule ccontr)
  assume "\<not> real_of_int mx < real_of_int cur * t"
  with assms(2) have "t \<le> real_of_int mx / real_of_int cur"
    by (simp add: pos_le_divide_eq mult.commute)
  then have "round_double t \<le> round_double (real_of_int mx / real_of_int cur)"
    by (rule round_double_mono)
  with assms(1, 3) show False by (simp add: int_truediv_def)
qed

lemma exceeds_tighten_test:
  assumes "round_double t = t" "0 < cur" "real_of_int mx < real_of_int cur * t"
  shows "int_truediv mx cur \<le> t"
proof -
  from assms(2, 3) have "real_of_int mx / real_of_int cur \<le> t"
    by (simp add: pos_divide_le_eq mult.commute)
  then have "round_double (real_of_int mx / real_of_int cur) \<le> round_double t"
    by (rule round_double_mono)
  with assms(1) show ?thesis by (simp add: int_truediv_def)
qed

lemma tighten_test_iff:
  assumes "round_double t = t" "0 < cur"
  shows "int_truediv mx cur < t
         \<longleftrightarrow> real_of_int mx < real_of_int cur * t \<and> int_truediv mx cur \<noteq> t"
  using tighten_test_exceeds [OF assms, of mx] exceeds_tighten_test [OF assms, of mx]
  by auto

text \<open>
  With 10 current tokens, a budget of 1 and the float \<^verbatim>\<open>0.1\<close> as the configured ratio, the
  quotient is that float and the ratio is not tightened, although the float is above one
  tenth.
\<close>

lemma quotient_on_ratio_example:
  "tighten_ratio (s\<lparr>target_ratio := round_double (1 / 10)\<rparr>) 1 10
     = s\<lparr>target_ratio := round_double (1 / 10)\<rparr>
   \<and> real_of_int 1 < real_of_int 10 * round_double (1 / 10)"
  by (simp add: tighten_ratio_def required_ratio_def float_eval)

text \<open>
  When \<^verbatim>\<open>compress\<close> raises, \<^verbatim>\<open>compress_chunks\<close> leaves the tightened ratio on the
  compressor: with a compression model that raises, 101 current tokens and a budget of 30,
  the compressor configured with 0.5 is left with a ratio below 0.3.
\<close>

lemma compress_chunks_raise:
  assumes "ensure_initialized E s = Inr s1"
    and "compress E U (tighten_ratio s1 mx (estimate_tokens (combined_text cs)))
           (combined_text cs) (Some q) True = Inl e"
  shows "compress_chunks E U s cs q mx
           = Inl (e, tighten_ratio s1 mx (estimate_tokens (combined_text cs)))"
  using assms by (simp add: compress_chunks_def Let_def)

lemma budget_ratio_example:
  "int_truediv 30 101 < 1 / 2
   \<and> float_mul (int_truediv 30 101) (round_double (9 / 10)) < 3 / 10"
  by (simp add: float_eval)

lemma compress_chunks_raise_example:
  "compress_chunks failing_model ascii_db default_compressor [one_match] (cp ''What was held?'') 30
     = Inl (ServiceError,
            default_compressor\<lparr>initialized := True,
              target_ratio := float_mul (int_truediv 30 101) (round_double (9 / 10))\<rparr>)"
proof -
  have i: "ensure_initialized failing_model default_compressor
             = Inr (default_compressor\<lparr>initialized := True\<rparr>)"
    by (simp add: ensure_initialized_def failing_model_def default_compressor_def)
  have t: "tighten_ratio (default_compressor\<lparr>initialized := True\<rparr>) 30 101
             = default_compressor\<lparr>initialized := True,
                 target_ratio := float_mul (int_truediv 30 101) (round_double (9 / 10))\<rparr>"
    using budget_ratio_example
    by (simp add: tighten_ratio_def required_ratio_def default_compressor_def Let_def)
  have c: "compress failing_model U s t (Some q) True = Inl ServiceError"
    if "initialized s" for U s t q
    using that
    by (simp add: compress_def ensure_initialized_def failing_model_def Let_def
          split: prod.splits)
  have "compress failing_model ascii_db
          (tighten_ratio (default_compressor\<lparr>initialized := True\<rparr>) 30
             (estimate_tokens (combined_text [one_match])))
          (combined_text [one_match]) (Some (cp ''What was held?'')) True = Inl ServiceError"
    by (rule c) (simp add: tighten_ratio_def Let_def)
  from compress_chunks_raise [OF i this] show ?thesis
    by (simp add: tokens_one_match t)
qed







subsection \<open>One contract for both compressors\<close>

text \<open>
  Claim C5. The engine calls its compressor with the keyword \<^verbatim>\<open>preserve_citations\<close>, which
  the method of the fallback compressor does not declare: such a call raises
  \<^verbatim>\<open>TypeError\<close>, and so does a query of an engine that holds the fallback compressor,
  as soon as the search finds something.
\<close>

theorem fallback_rejects_engine_call:
  "call_compress E U (SimpleFallback r) t q (Some b) = Inl TypeError
   \<and> query stub_services ascii_db fallback_engine (cp ''What was held?'') None True
       = Inl TypeError"
  by (simp add: query_def fallback_engine_def stub_services_def one_match_def)

section \<open>Facts about the chunker\<close>

lemma strip_shorter:
  "s \<noteq> [] \<Longrightarrow> isspace (last s) \<Longrightarrow> length (strip s) < length s"
proof -
  assume s: "s \<noteq> []" and sp: "isspace (last s)"
  let ?d = "dropWhile isspace s"
  show ?thesis
  proof (cases "?d = []")
    case True
    have "strip s = []" unfolding strip_def True by simp
    with s show ?thesis by simp
  next
    case False
    have "last ?d = last s"
      using False by (metis append_Nil2 last_appendR takeWhile_dropWhile_id)
    with sp False obtain x xs where r: "rev ?d = x # xs" "isspace x"
      by (cases "rev ?d") (auto simp: last_rev hd_rev [symmetric])
    have "length (dropWhile isspace (rev ?d)) \<le> length xs"
      using r by (simp add: length_dropWhile_le)
    also have "\<dots> < length ?d" using r by (metis length_rev length_Cons lessI)
    also have "\<dots> \<le> length s" by (rule length_dropWhile_le)
    finally show ?thesis by (simp add: strip_def)
  qed
qed

lemma overlap_loop_shape:
  "0 \<le> ov \<Longrightarrow> acc = [] \<or> (last acc = 32 \<and> int (length acc) \<le> ov + 1)
   \<Longrightarrow> overlap_loop ov us acc = []
       \<or> (last (overlap_loop ov us acc) = 32 \<and> int (length (overlap_loop ov us acc)) \<le> ov + 1)"
proof (induction us arbitrary: acc)
  case Nil then show ?case by simp
next
  case (Cons u us)
  show ?case
  proof (cases "int (length acc) + int (length u) \<le> ov")
    case True
    have "last (u @ [32] @ acc) = 32 \<and> int (length (u @ [32] @ acc)) \<le> ov + 1"
      using Cons.prems True by auto
    from Cons.IH [OF Cons.prems(1), of "u @ [32] @ acc"] this True show ?thesis by simp
  next
    case False
    show ?thesis
    proof (cases "ov - int (length acc) > 0")
      case r: True
      have "last (drop (length u - nat (ov - int (length acc))) u @ [32] @ acc) = 32"
        using Cons.prems by auto
      moreover have "int (length (drop (length u - nat (ov - int (length acc))) u @ [32] @ acc)) \<le> ov + 1"
        using r by auto
      ultimately show ?thesis using False r by (simp add: Let_def)
    next
      case r: False
      with False Cons.prems show ?thesis by (simp add: Let_def)
    qed
  qed
qed

lemma get_overlap_length: "int (length (get_overlap self us)) \<le> max 0 (chunk_overlap self)"
proof (cases "us = [] \<or> chunk_overlap self \<le> 0")
  case True
  then show ?thesis by (auto simp: get_overlap_def)
next
  case False
  let ?r = "overlap_loop (chunk_overlap self) (rev us) []"
  from False have ov: "0 \<le> chunk_overlap self" by simp
  from overlap_loop_shape [OF ov, of "[]" "rev us"]
  have "?r = [] \<or> (last ?r = 32 \<and> int (length ?r) \<le> chunk_overlap self + 1)" by simp
  then have "int (length (strip ?r)) \<le> chunk_overlap self"
  proof
    assume "?r = []"
    with ov show ?thesis by (simp add: strip_def)
  next
    assume a: "last ?r = 32 \<and> int (length ?r) \<le> chunk_overlap self + 1"
    show ?thesis
    proof (cases "?r = []")
      case True with ov show ?thesis by (simp add: strip_def)
    next
      case ne: False
      have "isspace (last ?r)" using a by (simp add: isspace_def)
      from strip_shorter [OF ne this] a show ?thesis by linarith
    qed
  qed
  with False show ?thesis by (simp add: get_overlap_def)
qed

lemma total_length_simps [simp]:
  "total_length [] = 0"
  "total_length (u # us) = int (length u) + total_length us"
  "total_length (us @ vs) = total_length us + total_length vs"
  by (simp_all add: total_length_def)

lemma total_length_nonneg: "0 \<le> total_length us"
  by (simp add: total_length_def)

lemma budget_single: "within_budget self [u]"
  by (auto simp: within_budget_def)

lemma budget_pair:
  "int (length ov) \<le> max 0 (chunk_overlap self) \<Longrightarrow> within_budget self [ov, u]"
  by (auto simp: within_budget_def)

lemma budget_append:
  "total_length us \<le> sz \<Longrightarrow> sz + int (length u) \<le> chunk_size self
   \<Longrightarrow> within_budget self (us @ [u])"
  by (auto simp: within_budget_def)

lemma run_step:
  assumes ok: "run_ok self (st, bs)"
    and new: "st' = (if closes self st u
        then \<lparr> chunks = chunks st @ [create_chunk (join sep (current_chunk st)) doc nm (chunk_index st)],
               chunk_index = chunk_index st + 1,
               current_chunk = (if get_overlap self (current_chunk st) \<noteq> []
                                then [get_overlap self (current_chunk st), u] else [u]),
               current_size = sz \<rparr>
        else st\<lparr> current_chunk := current_chunk st @ [u],
                 current_size := current_size st + int (length u) \<rparr>)"
    and rec: "bs' = (if closes self st u then bs @ [(sep, current_chunk st)] else bs)"
    and sep: "sep = [32] \<or> sep = [10, 10]"
    and sz: "get_overlap self (current_chunk st) \<noteq> []
             \<Longrightarrow> int (length (get_overlap self (current_chunk st))) + int (length u) \<le> sz"
            "get_overlap self (current_chunk st) = [] \<Longrightarrow> int (length u) \<le> sz"
  shows "run_ok self (st', bs')"
proof (cases "closes self st u")
  case True
  then have ne: "current_chunk st \<noteq> []" by (simp add: closes_def)
  from ok ne have r: "record_ok self (chunks st) bs"
    and b: "within_budget self (current_chunk st)" by (simp_all add: run_ok_def state_ok_def)
  have "buffer_ok self (sep, current_chunk st)"
    using sep b ne by (simp add: buffer_ok_def)
  with r have 1: "record_ok self (chunks st') bs'"
    using new rec True by (simp add: record_ok_def create_chunk_def Let_def)
  show ?thesis
  proof (cases "get_overlap self (current_chunk st) = []")
    case e: True
    with new True sz(2) 1 show ?thesis
      by (simp add: run_ok_def state_ok_def budget_single)
  next
    case e: False
    with new True sz(1) 1 get_overlap_length [of self "current_chunk st"] show ?thesis
      by (simp add: run_ok_def state_ok_def budget_pair)
  qed
next
  case False
  from ok have r: "record_ok self (chunks st) bs"
    and z: "current_chunk st = [] \<longrightarrow> current_size st = 0"
    and t: "total_length (current_chunk st) \<le> current_size st"
    by (simp_all add: run_ok_def state_ok_def)
  have st': "st' = st\<lparr> current_chunk := current_chunk st @ [u],
                 current_size := current_size st + int (length u) \<rparr>"
    and bs': "bs' = bs"
    using new rec False by simp_all
  have "within_budget self (current_chunk st @ [u])"
  proof (cases "current_chunk st = []")
    case True then show ?thesis by (simp add: budget_single)
  next
    case ne: False
    with False have "current_size st + int (length u) \<le> chunk_size self"
      by (simp add: closes_def)
    with t show ?thesis by (rule budget_append)
  qed
  with r t show ?thesis unfolding st' bs' by (simp add: run_ok_def state_ok_def)
qed

lemma add_sentence_rec_ok: "run_ok self sr \<Longrightarrow> run_ok self (add_sentence_rec self doc nm sr u)"
  unfolding add_sentence_rec_def
  by (rule run_step [where st = "fst sr" and bs = "snd sr" and sep = "[32]" and u = u
        and doc = doc and nm = nm
        and sz = "int (length (hd (if get_overlap self (current_chunk (fst sr)) \<noteq> []
                                then [get_overlap self (current_chunk (fst sr)), u] else [u])))
                  + int (length u)"])
     (auto simp: add_sentence_def closes_def Let_def)

lemma add_paragraph_rec_ok: "run_ok self sr \<Longrightarrow> run_ok self (add_paragraph_rec self doc nm sr u)"
  unfolding add_paragraph_rec_def
  by (rule run_step [where st = "fst sr" and bs = "snd sr" and sep = "[10, 10]" and u = u
        and doc = doc and nm = nm
        and sz = "if get_overlap self (current_chunk (fst sr)) \<noteq> []
                  then int (length (get_overlap self (current_chunk (fst sr)))) + int (length u)
                  else int (length u)"])
     (auto simp: add_paragraph_def closes_def Let_def)

lemma foldl_add_sentence_rec_ok:
  "run_ok self sr \<Longrightarrow> run_ok self (foldl (add_sentence_rec self doc nm) sr us)"
  by (induction us arbitrary: sr) (simp_all add: add_sentence_rec_ok)

lemma process_paragraph_rec_ok:
  "run_ok self sr \<Longrightarrow> run_ok self (process_paragraph_rec self doc nm sr raw)"
  by (simp add: process_paragraph_rec_def Let_def foldl_add_sentence_rec_ok add_paragraph_rec_ok)

lemma foldl_process_paragraph_rec_ok:
  "run_ok self sr \<Longrightarrow> run_ok self (foldl (process_paragraph_rec self doc nm) sr ps)"
  by (induction ps arbitrary: sr) (simp_all add: process_paragraph_rec_ok)

text \<open>The state beside the record is the state of the chunker.\<close>

lemma fst_foldl_add_sentence_rec:
  "fst (foldl (add_sentence_rec self doc nm) sr us) = foldl (add_sentence self doc nm) (fst sr) us"
  by (induction us arbitrary: sr) (simp_all add: add_sentence_rec_def)

lemma fst_process_paragraph_rec:
  "fst (process_paragraph_rec self doc nm sr raw) = process_paragraph self doc nm (fst sr) raw"
  by (simp add: process_paragraph_rec_def process_paragraph_def Let_def
        fst_foldl_add_sentence_rec add_paragraph_rec_def)

lemma fst_foldl_process_paragraph_rec:
  "fst (foldl (process_paragraph_rec self doc nm) sr ps)
     = foldl (process_paragraph self doc nm) (fst sr) ps"
  by (induction ps arbitrary: sr) (simp_all add: fst_process_paragraph_rec)

lemma fst_process_section_rec:
  "fst (process_section_rec self doc ar sec) = process_section self doc (fst ar) sec"
  by (simp add: process_section_rec_def process_section_def Let_def)

lemma fst_foldl_process_section_rec:
  "fst (foldl (process_section_rec self doc) ar secs)
     = foldl (process_section self doc) (fst ar) secs"
  by (induction secs arbitrary: ar) (simp_all add: fst_process_section_rec)

lemma process_section_rec_ok:
  assumes "record_ok self (fst (fst ar)) (snd ar)"
  shows "record_ok self (fst (fst (process_section_rec self doc ar sec)))
           (snd (process_section_rec self doc ar sec))"
proof -
  let ?nm = "case sec_name sec of None \<Rightarrow> cp ''CONTENT'' | Some n \<Rightarrow> n"
  let ?txt = "case sec_text sec of None \<Rightarrow> [] | Some t \<Rightarrow> t"
  let ?ini = "\<lparr> chunks = fst (fst ar), chunk_index = snd (fst ar),
                current_chunk = [], current_size = 0 \<rparr>"
  let ?sr = "foldl (process_paragraph_rec self doc ?nm) (?ini, snd ar) (split_nn [] ?txt)"
  let ?st = "foldl (process_paragraph self doc ?nm) ?ini (split_nn [] ?txt)"
  have f: "fst ?sr = ?st" by (simp add: fst_foldl_process_paragraph_rec)
  have "run_ok self (?ini, snd ar)" using assms by (simp add: run_ok_def state_ok_def)
  then have "run_ok self ?sr" by (rule foldl_process_paragraph_rec_ok)
  then have r: "record_ok self (chunks ?st) (snd ?sr)"
    and b: "current_chunk ?st \<noteq> [] \<Longrightarrow> within_budget self (current_chunk ?st)"
    unfolding f [symmetric] by (simp_all add: run_ok_def state_ok_def)
  have "current_chunk ?st \<noteq> [] \<Longrightarrow> buffer_ok self ([10, 10], current_chunk ?st)"
    using b by (simp add: buffer_ok_def)
  with r assms show ?thesis
    by (simp add: process_section_rec_def process_section_def Let_def f record_ok_def
          create_chunk_def)
qed

lemma foldl_process_section_rec_ok:
  "record_ok self (fst (fst ar)) (snd ar)
   \<Longrightarrow> record_ok self (fst (fst (foldl (process_section_rec self doc) ar secs)))
         (snd (foldl (process_section_rec self doc) ar secs))"
  by (induction secs arbitrary: ar) (simp_all add: process_section_rec_ok)

lemma chunk_buffers_ok: "record_ok self (chunk_document self doc) (chunk_buffers self doc)"
proof -
  let ?secs = "if sections doc \<noteq> [] then sections doc
               else [\<lparr> sec_name = Some (cp ''CONTENT''), sec_text = Some (content doc) \<rparr>]"
  let ?ar = "foldl (process_section_rec self doc) (([], 0), []) ?secs"
  have "record_ok self (fst (fst (([], 0), []))) (snd ((([], 0), []) :: (DocumentChunk list \<times> nat) \<times> buffer list))"
    by (simp add: record_ok_def)
  then have "record_ok self (fst (fst ?ar)) (snd ?ar)"
    by (rule foldl_process_section_rec_ok)
  moreover have "fst (fst ?ar) = chunk_document self doc"
    by (simp add: fst_foldl_process_section_rec chunk_document_def Let_def)
  moreover have "snd ?ar = chunk_buffers self doc"
    by (simp add: chunk_buffers_def Let_def)
  ultimately show ?thesis by simp
qed

lemma length_join_le:
  "length sep \<le> 2 \<Longrightarrow> us \<noteq> []
   \<Longrightarrow> int (length (join sep us)) \<le> total_length us + 2 * (int (length us) - 1)"
proof (induction sep us rule: join.induct)
  case (1 sep) then show ?case by simp
next
  case (2 sep x) then show ?case by simp
next
  case (3 sep x y ys) then show ?case by simp
qed

lemma numbered_snoc:
  "numbered_ids d 0 ids \<Longrightarrow> numbered_ids d 0 (ids @ [(sec, d @ [95] @ sec @ [95] @ str_nat (length ids))])"
  by (simp add: numbered_ids_def)

lemma id_close:
  assumes "id_state_ok doc st"
  shows "id_state_ok doc \<lparr> chunks = chunks st @ [create_chunk t doc nm (chunk_index st)],
                          chunk_index = Suc (chunk_index st),
                          current_chunk = cur, current_size = sz \<rparr>"
  using assms numbered_snoc
    [of "fmt (doc_attr doc ''filename'' (PyStr (cp ''unknown'')))"
        "map (\<lambda>c. (chunk_section c, chunk_id c)) (chunks st)" nm]
  by (simp add: id_state_ok_def create_chunk_def Let_def)

lemma id_keep:
  "id_state_ok doc st \<Longrightarrow> id_state_ok doc (st\<lparr>current_chunk := cur, current_size := sz\<rparr>)"
  by (simp add: id_state_ok_def)

lemma add_sentence_ids: "id_state_ok doc st \<Longrightarrow> id_state_ok doc (add_sentence self doc nm st u)"
  by (simp add: add_sentence_def Let_def id_close id_keep)

lemma add_paragraph_ids: "id_state_ok doc st \<Longrightarrow> id_state_ok doc (add_paragraph self doc nm st u)"
  by (simp add: add_paragraph_def Let_def id_close id_keep)

lemma foldl_add_sentence_ids:
  "id_state_ok doc st \<Longrightarrow> id_state_ok doc (foldl (add_sentence self doc nm) st us)"
  by (induction us arbitrary: st) (simp_all add: add_sentence_ids)

lemma process_paragraph_ids:
  "id_state_ok doc st \<Longrightarrow> id_state_ok doc (process_paragraph self doc nm st raw)"
  by (simp add: process_paragraph_def Let_def foldl_add_sentence_ids add_paragraph_ids)

lemma foldl_process_paragraph_ids:
  "id_state_ok doc st \<Longrightarrow> id_state_ok doc (foldl (process_paragraph self doc nm) st ps)"
  by (induction ps arbitrary: st) (simp_all add: process_paragraph_ids)

lemma process_section_ids:
  assumes "acc_ok doc acc"
  shows "acc_ok doc (process_section self doc acc sec)"
proof -
  let ?nm = "case sec_name sec of None \<Rightarrow> cp ''CONTENT'' | Some n \<Rightarrow> n"
  let ?txt = "case sec_text sec of None \<Rightarrow> [] | Some t \<Rightarrow> t"
  let ?ini = "\<lparr> chunks = fst acc, chunk_index = snd acc, current_chunk = [], current_size = 0 \<rparr>"
  let ?st = "foldl (process_paragraph self doc ?nm) ?ini (split_nn [] ?txt)"
  have "id_state_ok doc ?ini" using assms by (simp add: id_state_ok_def acc_ok_def)
  then have ok: "id_state_ok doc ?st" by (rule foldl_process_paragraph_ids)
  from ok id_close [OF ok, of "join [10, 10] (current_chunk ?st)" ?nm "[]" 0]
  have "acc_ok doc (chunks ?st @ [create_chunk (join [10, 10] (current_chunk ?st)) doc ?nm
                                     (chunk_index ?st)], chunk_index ?st + 1)"
    by (simp add: id_state_ok_def acc_ok_def)
  moreover have "acc_ok doc (chunks ?st, chunk_index ?st)"
    using ok by (simp add: id_state_ok_def acc_ok_def)
  ultimately show ?thesis using assms
    by (simp add: process_section_def Let_def)
qed

lemma foldl_process_section_ids:
  "acc_ok doc acc \<Longrightarrow> acc_ok doc (foldl (process_section self doc) acc secs)"
  by (induction secs arbitrary: acc) (simp_all add: process_section_ids)

lemma chunk_document_ids:
  "map chunk_id (chunk_document self doc)
     = map (\<lambda>(k, c). fmt (doc_attr doc ''filename'' (PyStr (cp ''unknown'')))
                     @ [95] @ chunk_section c @ [95] @ str_nat k)
           (zip [0 ..< length (chunk_document self doc)] (chunk_document self doc))"
proof -
  have "acc_ok doc ([], 0)" by (simp add: acc_ok_def numbered_ids_def)
  then have "acc_ok doc (foldl (process_section self doc) ([], 0)
               (if sections doc \<noteq> [] then sections doc
                else [\<lparr> sec_name = Some (cp ''CONTENT''), sec_text = Some (content doc) \<rparr>]))"
    by (rule foldl_process_section_ids)
  then show ?thesis
    by (simp add: acc_ok_def numbered_ids_def chunk_document_def Let_def zip_map2 comp_def
          case_prod_unfold)
qed

lemma chunk_text_step_ids:
  assumes "snd (snd st) = length (fst st)"
    and "map tc_chunk_id (fst st)
         = map (\<lambda>k. d @ [95] @ section_label sec @ [95] @ str_nat k) [0 ..< length (fst st)]"
  shows "snd (snd (chunk_text_step self d sec st p)) = length (fst (chunk_text_step self d sec st p))
       \<and> map tc_chunk_id (fst (chunk_text_step self d sec st p))
         = map (\<lambda>k. d @ [95] @ section_label sec @ [95] @ str_nat k)
               [0 ..< length (fst (chunk_text_step self d sec st p))]"
  using assms
  by (cases st) (auto simp: chunk_text_step_def Let_def text_chunk_def)

lemma chunk_text_fold_ids:
  "snd (snd st) = length (fst st)
   \<Longrightarrow> map tc_chunk_id (fst st)
         = map (\<lambda>k. d @ [95] @ section_label sec @ [95] @ str_nat k) [0 ..< length (fst st)]
   \<Longrightarrow> snd (snd (foldl (chunk_text_step self d sec) st ps))
         = length (fst (foldl (chunk_text_step self d sec) st ps))
       \<and> map tc_chunk_id (fst (foldl (chunk_text_step self d sec) st ps))
         = map (\<lambda>k. d @ [95] @ section_label sec @ [95] @ str_nat k)
               [0 ..< length (fst (foldl (chunk_text_step self d sec) st ps))]"
proof (induction ps arbitrary: st)
  case Nil then show ?case by simp
next
  case (Cons p ps)
  from chunk_text_step_ids [OF Cons.prems, of self p]
  show ?case using Cons.IH [of "chunk_text_step self d sec st p"] by simp
qed

lemma chunk_text_ids:
  "map tc_chunk_id (chunk_text self ps d sec)
     = map (\<lambda>k. d @ [95] @ section_label sec @ [95] @ str_nat k)
           [0 ..< length (chunk_text self ps d sec)]"
proof -
  obtain cs cur idx where f: "foldl (chunk_text_step self d sec) ([], [], 0) ps = (cs, cur, idx)"
    by (cases "foldl (chunk_text_step self d sec) ([], [], 0) ps") auto
  from chunk_text_fold_ids [of "([], [], 0)" d sec self ps] f
  have "idx = length cs"
    "map tc_chunk_id cs = map (\<lambda>k. d @ [95] @ section_label sec @ [95] @ str_nat k) [0 ..< length cs]"
    by simp_all
  then show ?thesis
    by (simp add: chunk_text_def f text_chunk_def)
qed

lemmas chunker_eval =
  chunk_document_def process_section_def process_paragraph_def add_paragraph_def
  add_sentence_def get_overlap_def create_chunk_def doc_attr_def strip_def isspace_def
  cp_def Let_def str_nat.simps

lemma two_paragraphs_chunks:
  "chunk_document small_chunker two_paragraphs
     = [create_chunk (cp ''Aaaa.'' @ [10, 10] @ cp ''Bbbb.'') two_paragraphs (cp ''CONTENT'') 0]"
  by (simp add: chunker_eval small_chunker_def two_paragraphs_def)

subsection \<open>Chunk ordinals\<close>

text \<open>
  Claim C2. In \<^verbatim>\<open>legal_rag/core/chunker.py\<close> the ordinals are not numbered anew in each
  section: \<^verbatim>\<open>chunk_index\<close> is set to 0 once, before the loop over the sections. A document
  \<^verbatim>\<open>f\<close> with the sections \<^verbatim>\<open>A\<close> and \<^verbatim>\<open>B\<close> of one chunk each gets the identifiers
  \<^verbatim>\<open>f_A_0\<close> and \<^verbatim>\<open>f_B_1\<close>, so the ordinals of section \<^verbatim>\<open>B\<close> do not start at 0. The chunker
  of the document processor numbers the same section from 0.
\<close>

theorem chunk_ordinals_not_restarted:
  "map chunk_id (chunk_document default_chunker two_sections) = [cp ''f_A_0'', cp ''f_B_1'']
   \<and> map chunk_section (chunk_document default_chunker two_sections) = [cp ''A'', cp ''B'']
   \<and> map tc_chunk_id (chunk_text default_chunker [cp ''y''] (cp ''f'') (Some (cp ''B'')))
       = [cp ''f_B_0'']"
  by (simp add: chunker_eval default_chunker_def two_sections_def chunk_text_def
        chunk_text_step_def text_chunk_def section_label_def)

subsection \<open>Chunk size\<close>

text \<open>
  Claim C3, as the specification states it: but for a sentence longer than
  \<^verbatim>\<open>chunk_size\<close>, the content of a chunk is at most \<^verbatim>\<open>chunk_size + chunk_overlap\<close> long.
  With \<^verbatim>\<open>chunk_size\<close> 10 and no overlap, two paragraphs of five characters go into one
  chunk of twelve characters: the separator between them is not counted against the size.
\<close>

theorem chunk_size_bound_counterexample:
  "map chunk_content (chunk_document small_chunker two_paragraphs)
     = [cp ''Aaaa.'' @ [10, 10] @ cp ''Bbbb.'']
   \<and> \<not> int (length (cp ''Aaaa.'' @ [10, 10] @ cp ''Bbbb.''))
         \<le> chunk_size small_chunker + chunk_overlap small_chunker
   \<and> split_sentences (cp ''Aaaa.'' @ [10, 10] @ cp ''Bbbb.'') = [cp ''Aaaa.'', cp ''Bbbb.'']"
  by (simp add: chunker_eval small_chunker_def two_paragraphs_def split_sentences_def)

text \<open>
  Claim C3, amended. The contents of the chunks are, in order, the buffers of the run of
  \<^verbatim>\<open>chunk_document\<close>, each joined by a space or by a blank line. Every such buffer has at
  least one unit, and either its units are together at most \<^verbatim>\<open>chunk_size\<close> plus the
  overlap long (the overlap counting as 0 if negative), so that the content is at most
  that plus two characters for each separator, or its last unit is longer than
  \<^verbatim>\<open>chunk_size\<close> and what stands before it is at most the overlap long.
\<close>

theorem chunk_size_bound:
  "map chunk_content (chunk_document self doc)
     = map (\<lambda>(sep, us). join sep us) (chunk_buffers self doc)
   \<and> (\<forall>(sep, us) \<in> set (chunk_buffers self doc).
         (sep = [32] \<or> sep = [10, 10]) \<and> us \<noteq> []
         \<and> (total_length us \<le> chunk_size self + max 0 (chunk_overlap self)
              \<and> int (length (join sep us))
                    \<le> chunk_size self + max 0 (chunk_overlap self) + 2 * (int (length us) - 1)
            \<or> chunk_size self < int (length (last us))
              \<and> total_length (butlast us) \<le> max 0 (chunk_overlap self)))"
proof -
  note ok = chunk_buffers_ok [of self doc]
  have A: "map chunk_content (chunk_document self doc)
             = map (\<lambda>(sep, us). join sep us) (chunk_buffers self doc)"
    using ok by (simp add: record_ok_def case_prod_unfold)
  have B: "(sep = [32] \<or> sep = [10, 10]) \<and> us \<noteq> []
         \<and> (total_length us \<le> chunk_size self + max 0 (chunk_overlap self)
              \<and> int (length (join sep us))
                    \<le> chunk_size self + max 0 (chunk_overlap self) + 2 * (int (length us) - 1)
            \<or> chunk_size self < int (length (last us))
              \<and> total_length (butlast us) \<le> max 0 (chunk_overlap self))"
    if m: "(sep, us) \<in> set (chunk_buffers self doc)" for sep us
  proof -
    from ok m have "buffer_ok self (sep, us)" by (simp add: record_ok_def list_all_iff)
    then have s: "sep = [32] \<or> sep = [10, 10]" and ne: "us \<noteq> []"
      and b: "within_budget self us" by (simp_all add: buffer_ok_def)
    from s have "length sep \<le> 2" by auto
    from length_join_le [OF this ne]
    have l: "int (length (join sep us)) \<le> total_length us + 2 * (int (length us) - 1)" .
    from b ne have "total_length us \<le> chunk_size self + max 0 (chunk_overlap self)
              \<and> int (length (join sep us))
                    \<le> chunk_size self + max 0 (chunk_overlap self) + 2 * (int (length us) - 1)
            \<or> chunk_size self < int (length (last us))
              \<and> total_length (butlast us) \<le> max 0 (chunk_overlap self)"
      unfolding within_budget_def using l by linarith
    with s ne show ?thesis by blast
  qed
  from A B show ?thesis by blast
qed

lemma two_paragraphs_buffers:
  "chunk_buffers small_chunker two_paragraphs = [([10, 10], [cp ''Aaaa.'', cp ''Bbbb.''])]"
  by (simp add: chunk_buffers_def process_section_rec_def process_paragraph_rec_def
        add_paragraph_rec_def add_sentence_rec_def closes_def chunker_eval
        small_chunker_def two_paragraphs_def)

theorem chunk_size_bound_witness:
  "([10, 10], [cp ''Aaaa.'', cp ''Bbbb.'']) \<in> set (chunk_buffers small_chunker two_paragraphs)
   \<and> map chunk_content (chunk_document small_chunker two_paragraphs)
       = [join [10, 10] [cp ''Aaaa.'', cp ''Bbbb.'']]
   \<and> total_length [cp ''Aaaa.'', cp ''Bbbb.'']
       \<le> chunk_size small_chunker + max 0 (chunk_overlap small_chunker)
   \<and> int (length (join [10, 10] [cp ''Aaaa.'', cp ''Bbbb.'']))
       \<le> chunk_size small_chunker + max 0 (chunk_overlap small_chunker) + 2 * (2 - 1)"
proof -
  note b = two_paragraphs_buffers
  note t = chunk_size_bound [of small_chunker two_paragraphs]
  have m: "([10, 10], [cp ''Aaaa.'', cp ''Bbbb.''])
             \<in> set (chunk_buffers small_chunker two_paragraphs)"
    by (simp add: b)
  from t have "map chunk_content (chunk_document small_chunker two_paragraphs)
          = map (\<lambda>(sep, us). join sep us) (chunk_buffers small_chunker two_paragraphs)"
    by blast
  then have c: "map chunk_content (chunk_document small_chunker two_paragraphs)
                  = [join [10, 10] [cp ''Aaaa.'', cp ''Bbbb.'']]"
    by (simp add: b)
  from t m have "total_length [cp ''Aaaa.'', cp ''Bbbb.'']
          \<le> chunk_size small_chunker + max 0 (chunk_overlap small_chunker)
        \<and> int (length (join [10, 10] [cp ''Aaaa.'', cp ''Bbbb.'']))
          \<le> chunk_size small_chunker + max 0 (chunk_overlap small_chunker)
              + 2 * (int (length [cp ''Aaaa.'', cp ''Bbbb.'']) - 1)
        \<or> chunk_size small_chunker < int (length (last [cp ''Aaaa.'', cp ''Bbbb.'']))
        \<and> total_length (butlast [cp ''Aaaa.'', cp ''Bbbb.''])
          \<le> max 0 (chunk_overlap small_chunker)"
    by blast
  then have l: "total_length [cp ''Aaaa.'', cp ''Bbbb.'']
          \<le> chunk_size small_chunker + max 0 (chunk_overlap small_chunker)
        \<and> int (length (join [10, 10] [cp ''Aaaa.'', cp ''Bbbb.'']))
          \<le> chunk_size small_chunker + max 0 (chunk_overlap small_chunker) + 2 * (2 - 1)"
    by (simp add: small_chunker_def cp_def)
  from m c l show ?thesis by blast
qed

end
